theory Spec2Isabelle
  imports Main "HOL-Library.AList" "HOL-Library.Sublist"
begin

section \<open>Python dictionaries\<close>

text \<open>
  A Python \<^verbatim>\<open>dict\<close> keeps its keys in insertion order; assigning to a key that is
  already present replaces the value and leaves the key where it is. An association
  list with \<^const>\<open>AList.update\<close> behaves the same way: \<^verbatim>\<open>d[k] = v\<close> is
  \<open>AList.update k v d\<close>, \<^verbatim>\<open>d.get(k)\<close> is \<open>map_of d k\<close>, \<^verbatim>\<open>k in d\<close> is
  \<open>map_of d k \<noteq> None\<close>, \<^verbatim>\<open>del d[k]\<close> is \<open>AList.delete k d\<close>, and iterating
  \<^verbatim>\<open>d.items()\<close> walks the list from its head.
\<close>

type_synonym ('k, 'v) pydict = "('k \<times> 'v) list"

text \<open>The dict comprehension \<^verbatim>\<open>{f(x): x for x in xs}\<close>.\<close>

definition dict_of :: "('a \<Rightarrow> 'k) \<Rightarrow> 'a list \<Rightarrow> ('k, 'a) pydict" where
  "dict_of f xs = fold (\<lambda>x d. AList.update (f x) x d) xs []"

section \<open>Data model\<close>

text \<open>
  The dataclasses \<^verbatim>\<open>Column\<close>, \<^verbatim>\<open>ForeignKey\<close> and \<^verbatim>\<open>Table\<close>. Both source files
  (\<^verbatim>\<open>aquaform.py\<close> for Supabase, \<^verbatim>\<open>aquaformmy.py\<close> for MySQL) declare the same
  \<^verbatim>\<open>Column\<close> and \<^verbatim>\<open>ForeignKey\<close>; their \<^verbatim>\<open>Table\<close> classes differ only in the
  connection fields (\<^verbatim>\<open>url, key\<close> against \<^verbatim>\<open>host, user, password, database\<close>),
  which are the type parameter \<open>'c\<close> here. Field names carry a prefix because the three
  classes share the names \<^verbatim>\<open>name\<close> and \<^verbatim>\<open>columns\<close>. A column default is an
  optional opaque string.
\<close>

record Column =
  col_name :: string
  col_type :: string
  col_nullable :: bool
  col_default :: "string option"

record ForeignKey =
  fk_columns :: "string list"
  fk_reference_table :: string
  fk_reference_columns :: "string list"
  fk_on_delete :: string
  fk_on_update :: string

record 'c Table =
  t_name :: string
  t_conn :: 'c
  t_columns :: "Column list"
  t_primary_key :: "string list"
  t_foreign_keys :: "ForeignKey list option"
  t_resource_id :: string

record supabase_conn =
  url :: string
  key :: string

record mysql_conn =
  host :: string
  user :: string
  password :: string
  database :: string

text \<open>\<^verbatim>\<open>Column.equals\<close> and \<^verbatim>\<open>ForeignKey.equals\<close>, test by test.\<close>

definition column_equals :: "Column \<Rightarrow> Column \<Rightarrow> bool" where
  "column_equals self other =
     (if col_name self \<noteq> col_name other then False
      else if col_type self \<noteq> col_type other then False
      else if col_nullable self \<noteq> col_nullable other then False
      else if col_default self \<noteq> col_default other then False
      else True)"

definition foreign_key_equals :: "ForeignKey \<Rightarrow> ForeignKey \<Rightarrow> bool" where
  "foreign_key_equals self other =
     (if fk_columns self \<noteq> fk_columns other then False
      else if fk_reference_table self \<noteq> fk_reference_table other then False
      else if fk_reference_columns self \<noteq> fk_reference_columns other then False
      else if fk_on_delete self \<noteq> fk_on_delete other then False
      else if fk_on_update self \<noteq> fk_on_update other then False
      else True)"

section \<open>The diff: \<^verbatim>\<open>_compare_tables\<close>\<close>

text \<open>
  The result of \<^verbatim>\<open>_compare_tables\<close> is a dict with up to six keys. A list-valued key
  is present exactly when its list is not empty (the source stores
  \<^verbatim>\<open>add_columns\<close> only \<^verbatim>\<open>if add_columns:\<close>, and creates
  \<^verbatim>\<open>remove_foreign_keys\<close> only to append to it at once), and every reader uses
  \<^verbatim>\<open>changes.get(key, [])\<close>; so a list field that is empty stands for an absent key,
  and \<^verbatim>\<open>modify_primary_key\<close> is an option. The dict is falsy when all are absent.
\<close>

record changes =
  add_columns :: "Column list"
  modify_columns :: "(Column \<times> Column) list"
  remove_columns :: "Column list"
  modify_primary_key :: "(string list \<times> string list) option"
  add_foreign_keys :: "ForeignKey list"
  remove_foreign_keys :: "ForeignKey list"

definition changes_empty :: "changes \<Rightarrow> bool" where
  "changes_empty c \<longleftrightarrow>
     add_columns c = [] \<and> modify_columns c = [] \<and> remove_columns c = [] \<and>
     modify_primary_key c = None \<and> add_foreign_keys c = [] \<and> remove_foreign_keys c = []"

text \<open>
  The loop \<^verbatim>\<open>for k, v in m1.items(): if k not in m2: out.append(v)\<close>, which the source
  writes four times (added and removed columns, added and removed foreign keys).
\<close>

definition only_in :: "('k, 'v) pydict \<Rightarrow> ('k, 'v) pydict \<Rightarrow> 'v list" where
  "only_in m1 m2 = map snd (filter (\<lambda>(k, v). map_of m2 k = None) m1)"

text \<open>
  The loop \<^verbatim>\<open>for k, new in new_map.items(): if k in old_map and not new.equals(old_map[k])\<close>,
  collecting the pair \<^verbatim>\<open>(old_map[k], new)\<close>; written twice in the source (columns, foreign
  keys).
\<close>

definition modified_pairs ::
  "('v \<Rightarrow> 'v \<Rightarrow> bool) \<Rightarrow> ('k, 'v) pydict \<Rightarrow> ('k, 'v) pydict \<Rightarrow> ('v \<times> 'v) list" where
  "modified_pairs equals old_map new_map =
     concat (map (\<lambda>(k, new).
        case map_of old_map k of
          None \<Rightarrow> []
        | Some old \<Rightarrow> if \<not> equals new old then [(old, new)] else []) new_map)"

text \<open>Python truthiness of an optional list, and \<^verbatim>\<open>xs or []\<close>.\<close>

fun truthy_list :: "'a list option \<Rightarrow> bool" where
  "truthy_list None = False"
| "truthy_list (Some xs) = (xs \<noteq> [])"

fun or_empty :: "'a list option \<Rightarrow> 'a list" where
  "or_empty None = []"
| "or_empty (Some xs) = xs"

text \<open>
  \<^verbatim>\<open>_compare_tables\<close> (the same text in both files). In the foreign-key part the
  source first stores the keys only in \<^verbatim>\<open>new\<close> under \<^verbatim>\<open>add_foreign_keys\<close>, then
  appends every changed key to \<^verbatim>\<open>remove_foreign_keys\<close> (its old version) and to
  \<^verbatim>\<open>add_foreign_keys\<close> (its new version), then appends the keys only in \<^verbatim>\<open>old\<close> to
  \<^verbatim>\<open>remove_foreign_keys\<close>.
\<close>

definition compare_tables :: "'c Table \<Rightarrow> 'c Table \<Rightarrow> changes" where
  "compare_tables old_table new_table =
     (let old_columns_map = dict_of col_name (t_columns old_table);
          new_columns_map = dict_of col_name (t_columns new_table);
          with_fks = (truthy_list (t_foreign_keys old_table) \<or> truthy_list (t_foreign_keys new_table));
          old_fks_map = dict_of fk_columns (or_empty (t_foreign_keys old_table));
          new_fks_map = dict_of fk_columns (or_empty (t_foreign_keys new_table));
          changed_fks = modified_pairs foreign_key_equals old_fks_map new_fks_map
      in \<lparr> add_columns = only_in new_columns_map old_columns_map,
           modify_columns = modified_pairs column_equals old_columns_map new_columns_map,
           remove_columns = only_in old_columns_map new_columns_map,
           modify_primary_key =
             (if t_primary_key old_table \<noteq> t_primary_key new_table
              then Some (t_primary_key old_table, t_primary_key new_table) else None),
           add_foreign_keys =
             (if with_fks then only_in new_fks_map old_fks_map @ map snd changed_fks else []),
           remove_foreign_keys =
             (if with_fks then map fst changed_fks @ only_in old_fks_map new_fks_map else []) \<rparr>)"

section \<open>Descriptors: \<^verbatim>\<open>from_dict\<close> and \<^verbatim>\<open>to_dict\<close>\<close>

text \<open>
  A descriptor is the dict that YAML or JSON parsing yields, and that \<^verbatim>\<open>to_dict\<close>
  builds for the state file. Every key may be missing, so every field is an option;
  \<^verbatim>\<open>data[k]\<close> on a missing key raises \<^verbatim>\<open>KeyError\<close>, which is a value here. A field
  that accepts one string or a list of strings is \<open>one_or_many\<close>.
  \<^verbatim>\<open>TypeError\<close> is what Python raises when \<^verbatim>\<open>None\<close> is subscripted.
\<close>

datatype error = KeyError string | TypeError

definition bind_err :: "error + 'a \<Rightarrow> ('a \<Rightarrow> error + 'b) \<Rightarrow> error + 'b" where
  "bind_err m f = (case m of Inl e \<Rightarrow> Inl e | Inr x \<Rightarrow> f x)"

fun getitem :: "string \<Rightarrow> 'a option \<Rightarrow> error + 'a" where
  "getitem k None = Inl (KeyError k)"
| "getitem k (Some v) = Inr v"

text \<open>A list comprehension whose body may raise: the first error ends it.\<close>

fun map_err :: "('a \<Rightarrow> error + 'b) \<Rightarrow> 'a list \<Rightarrow> error + 'b list" where
  "map_err f [] = Inr []"
| "map_err f (x # xs) = bind_err (f x) (\<lambda>y. bind_err (map_err f xs) (\<lambda>ys. Inr (y # ys)))"

text \<open>A loop whose body may raise: the first error ends it.\<close>

fun for_each :: "('a \<Rightarrow> 's \<Rightarrow> error + 's) \<Rightarrow> 'a list \<Rightarrow> 's \<Rightarrow> error + 's" where
  "for_each f [] s = Inr s"
| "for_each f (x # xs) s = bind_err (f x s) (for_each f xs)"

datatype one_or_many = One string | Many "string list"

text \<open>\<^verbatim>\<open>x if isinstance(x, list) else [x]\<close>\<close>

fun as_list :: "one_or_many \<Rightarrow> string list" where
  "as_list (Many xs) = xs"
| "as_list (One x) = [x]"

record raw_column =
  rc_name :: "string option"
  rc_type :: "string option"
  rc_nullable :: "bool option"
  rc_default :: "string option"

record raw_foreign_key =
  rf_columns :: "one_or_many option"
  rf_reference_table :: "string option"
  rf_reference_columns :: "one_or_many option"
  rf_on_delete :: "string option"
  rf_on_update :: "string option"

record 'r raw_table =
  rt_type :: "string option"
  rt_name :: "string option"
  rt_conn :: 'r
  rt_columns :: "raw_column list option"
  rt_primary_key :: "one_or_many option"
  rt_foreign_keys :: "raw_foreign_key list option"

record raw_supabase_conn =
  r_url :: "string option"
  r_key :: "string option"

record raw_mysql_conn =
  r_host :: "string option"
  r_user :: "string option"
  r_password :: "string option"
  r_database :: "string option"

text \<open>
  What the two files do differently with the connection fields of a descriptor: the
  \<^verbatim>\<open>type\<close> they accept, how they read the fields (in the order of the source), how
  \<^verbatim>\<open>to_dict\<close> writes them, and when none of them is present.
\<close>

record ('r, 'c) backend =
  resource_type :: string
  conn_from_dict :: "'r \<Rightarrow> error + 'c"
  conn_to_dict :: "'c \<Rightarrow> 'r"
  conn_absent :: "'r \<Rightarrow> bool"

definition supabase :: "(raw_supabase_conn, supabase_conn) backend" where
  "supabase =
     \<lparr> resource_type = ''supabase_table'',
       conn_from_dict = (\<lambda>data.
          bind_err (getitem ''url'' (r_url data)) (\<lambda>u.
          bind_err (getitem ''key'' (r_key data)) (\<lambda>k.
          Inr \<lparr> url = u, key = k \<rparr>))),
       conn_to_dict = (\<lambda>c. \<lparr> r_url = Some (url c), r_key = Some (key c) \<rparr>),
       conn_absent = (\<lambda>data. r_url data = None \<and> r_key data = None) \<rparr>"

definition mysql :: "(raw_mysql_conn, mysql_conn) backend" where
  "mysql =
     \<lparr> resource_type = ''mysql_table'',
       conn_from_dict = (\<lambda>data.
          bind_err (getitem ''host'' (r_host data)) (\<lambda>h.
          bind_err (getitem ''user'' (r_user data)) (\<lambda>u.
          bind_err (getitem ''password'' (r_password data)) (\<lambda>p.
          bind_err (getitem ''database'' (r_database data)) (\<lambda>d.
          Inr \<lparr> host = h, user = u, password = p, database = d \<rparr>))))),
       conn_to_dict = (\<lambda>c. \<lparr> r_host = Some (host c), r_user = Some (user c),
          r_password = Some (password c), r_database = Some (database c) \<rparr>),
       conn_absent = (\<lambda>data. r_host data = None \<and> r_user data = None \<and>
          r_password data = None \<and> r_database data = None) \<rparr>"

text \<open>\<^verbatim>\<open>Column.from_dict\<close>, \<^verbatim>\<open>Column.to_dict\<close>\<close>

definition column_from_dict :: "raw_column \<Rightarrow> error + Column" where
  "column_from_dict data =
     bind_err (getitem ''name'' (rc_name data)) (\<lambda>n.
     bind_err (getitem ''type'' (rc_type data)) (\<lambda>t.
     bind_err (getitem ''nullable'' (rc_nullable data)) (\<lambda>nl.
     Inr \<lparr> col_name = n, col_type = t, col_nullable = nl, col_default = rc_default data \<rparr>)))"

definition column_to_dict :: "Column \<Rightarrow> raw_column" where
  "column_to_dict self =
     \<lparr> rc_name = Some (col_name self), rc_type = Some (col_type self),
       rc_nullable = Some (col_nullable self), rc_default = col_default self \<rparr>"

text \<open>\<^verbatim>\<open>ForeignKey.from_dict\<close>, \<^verbatim>\<open>ForeignKey.to_dict\<close>\<close>

definition foreign_key_from_dict :: "raw_foreign_key \<Rightarrow> error + ForeignKey" where
  "foreign_key_from_dict data =
     bind_err (getitem ''columns'' (rf_columns data)) (\<lambda>cols.
     bind_err (getitem ''reference_table'' (rf_reference_table data)) (\<lambda>rt.
     bind_err (getitem ''reference_columns'' (rf_reference_columns data)) (\<lambda>rcols.
     Inr \<lparr> fk_columns = as_list cols, fk_reference_table = rt,
           fk_reference_columns = as_list rcols,
           fk_on_delete = (case rf_on_delete data of None \<Rightarrow> ''NO ACTION'' | Some a \<Rightarrow> a),
           fk_on_update = (case rf_on_update data of None \<Rightarrow> ''NO ACTION'' | Some a \<Rightarrow> a) \<rparr>)))"

definition foreign_key_to_dict :: "ForeignKey \<Rightarrow> raw_foreign_key" where
  "foreign_key_to_dict self =
     \<lparr> rf_columns = Some (Many (fk_columns self)),
       rf_reference_table = Some (fk_reference_table self),
       rf_reference_columns = Some (Many (fk_reference_columns self)),
       rf_on_delete = Some (fk_on_delete self),
       rf_on_update = Some (fk_on_update self) \<rparr>"

text \<open>
  \<^verbatim>\<open>Table.from_dict\<close>: the columns are read first, then the foreign keys when the key
  is present, then the name, the connection fields and the primary key.
  \<^verbatim>\<open>Table.to_dict\<close> writes no \<^verbatim>\<open>type\<close>, and writes \<^verbatim>\<open>foreign_keys\<close> only when
  the list is truthy.
\<close>

definition from_dict :: "('r, 'c) backend \<Rightarrow> string \<Rightarrow> 'r raw_table \<Rightarrow> error + 'c Table" where
  "from_dict b resource_id data =
     bind_err (getitem ''columns'' (rt_columns data)) (\<lambda>raw_cols.
     bind_err (map_err column_from_dict raw_cols) (\<lambda>columns.
     bind_err (case rt_foreign_keys data of
                 None \<Rightarrow> Inr None
               | Some raw_fks \<Rightarrow>
                   bind_err (map_err foreign_key_from_dict raw_fks) (\<lambda>fks. Inr (Some fks)))
       (\<lambda>foreign_keys.
     bind_err (getitem ''name'' (rt_name data)) (\<lambda>n.
     bind_err (conn_from_dict b (rt_conn data)) (\<lambda>conn.
     bind_err (getitem ''primary_key'' (rt_primary_key data)) (\<lambda>pk.
     Inr \<lparr> t_name = n, t_conn = conn, t_columns = columns, t_primary_key = as_list pk,
           t_foreign_keys = foreign_keys, t_resource_id = resource_id \<rparr>))))))"

definition to_dict :: "('r, 'c) backend \<Rightarrow> 'c Table \<Rightarrow> 'r raw_table" where
  "to_dict b self =
     \<lparr> rt_type = None,
       rt_name = Some (t_name self),
       rt_conn = conn_to_dict b (t_conn self),
       rt_columns = Some (map column_to_dict (t_columns self)),
       rt_primary_key = Some (Many (t_primary_key self)),
       rt_foreign_keys =
         (if truthy_list (t_foreign_keys self)
          then Some (map foreign_key_to_dict (or_empty (t_foreign_keys self))) else None) \<rparr>"

text \<open>A descriptor with no key at all is the empty dict, which is falsy.\<close>

definition raw_table_empty :: "('r, 'c) backend \<Rightarrow> 'r raw_table \<Rightarrow> bool" where
  "raw_table_empty b data \<longleftrightarrow>
     rt_type data = None \<and> rt_name data = None \<and> conn_absent b (rt_conn data) \<and>
     rt_columns data = None \<and> rt_primary_key data = None \<and> rt_foreign_keys data = None"

section \<open>The loader: \<^verbatim>\<open>_load_config\<close>\<close>



section \<open>The variable resolver: \<^verbatim>\<open>_resolve_vars\<close>\<close>

text \<open>
  \<^verbatim>\<open>os.environ\<close> is a map from names to values. \<^verbatim>\<open>s.startswith(p)\<close> is
  \<open>prefix p s\<close>, \<^verbatim>\<open>s.endswith(p)\<close> is \<open>suffix p s\<close>, and the slice \<^verbatim>\<open>s[2:-1]\<close>
  drops the first two characters of \<^verbatim>\<open>s\<close> without its last one.
\<close>

type_synonym environ = "string \<Rightarrow> string option"

definition resolve_vars :: "environ \<Rightarrow> string \<Rightarrow> string \<Rightarrow> string \<times> string" where
  "resolve_vars environ url0 key0 =
     (let url1 = (if prefix ''${'' url0 \<and> suffix ''}'' url0
                  then (let env_var = drop 2 (butlast url0)
                        in case environ env_var of None \<Rightarrow> url0 | Some v \<Rightarrow> v)
                  else url0);
          key1 = (if prefix ''${'' key0 \<and> suffix ''}'' key0
                  then (let env_var = drop 2 (butlast key0)
                        in case environ env_var of None \<Rightarrow> key0 | Some v \<Rightarrow> v)
                  else key0)
      in (url1, key1))"

section \<open>The dependency graph and the topological sort\<close>

text \<open>
  \<^verbatim>\<open>_build_dependency_graph\<close> (the same in both files): a dict from each table name to
  the list of the tables it references. The first loop is the dict comprehension, the
  second adds the names that are missing (there are none), the third appends, for every
  foreign key in turn, the referenced table when it is a key of the graph.
  \<^verbatim>\<open>graph[table.name]\<close> always finds its key, since the first loop put it there.
\<close>

type_synonym graph = "(string, string list) pydict"

text \<open>\<^verbatim>\<open>graph.get(node, [])\<close>\<close>

definition graph_get :: "graph \<Rightarrow> string \<Rightarrow> string list" where
  "graph_get graph node = (case map_of graph node of None \<Rightarrow> [] | Some ns \<Rightarrow> ns)"

definition add_dependency :: "string \<Rightarrow> ForeignKey \<Rightarrow> graph \<Rightarrow> graph" where
  "add_dependency table_name fk graph =
     (if map_of graph (fk_reference_table fk) \<noteq> None
      then AList.update table_name (graph_get graph table_name @ [fk_reference_table fk]) graph
      else graph)"

definition add_dependencies :: "string \<times> 'c Table \<Rightarrow> graph \<Rightarrow> graph" where
  "add_dependencies = (\<lambda>(resource_id, table) graph.
     if truthy_list (t_foreign_keys table)
     then fold (add_dependency (t_name table)) (or_empty (t_foreign_keys table)) graph
     else graph)"

definition build_dependency_graph :: "(string, 'c Table) pydict \<Rightarrow> graph" where
  "build_dependency_graph tables =
     (let graph0 = fold (\<lambda>(resource_id, table) graph. AList.update (t_name table) [] graph) tables [];
          graph1 = fold (\<lambda>(resource_id, table) graph.
                      if map_of graph (t_name table) = None
                      then AList.update (t_name table) [] graph else graph) tables graph0
      in fold add_dependencies tables graph1)"

text \<open>
  \<^verbatim>\<open>_topological_sort\<close> (the same in both files). The closure \<^verbatim>\<open>visit\<close> shares the
  list \<^verbatim>\<open>result\<close> and the sets \<^verbatim>\<open>visited\<close> and \<^verbatim>\<open>temp_visited\<close> with the enclosing
  function; here they are a state that every call takes and returns.
  \<open>visit_neighbors\<close> is the loop \<^verbatim>\<open>for neighbor in graph.get(node, []): visit(neighbor)\<close>.
  A node found in \<^verbatim>\<open>temp_visited\<close> is on a cycle: the source logs a warning and
  returns.
\<close>

record sort_state =
  result :: "string list"
  visited :: "string set"
  temp_visited :: "string set"

function visit :: "graph \<Rightarrow> string \<Rightarrow> sort_state \<Rightarrow> sort_state"
  and visit_neighbors :: "graph \<Rightarrow> string list \<Rightarrow> sort_state \<Rightarrow> sort_state" where
  "visit graph node s =
     (if node \<in> visited s then s
      else if node \<in> temp_visited s then s
      else (let s1 = s \<lparr> temp_visited := insert node (temp_visited s) \<rparr>;
                s2 = visit_neighbors graph (graph_get graph node) s1
            in s2 \<lparr> temp_visited := temp_visited s2 - {node},
                    visited := insert node (visited s2),
                    result := result s2 @ [node] \<rparr>))"
| "visit_neighbors graph [] s = s"
| "visit_neighbors graph (neighbor # rest) s =
     visit_neighbors graph rest (visit graph neighbor s)"
  by pat_completeness auto

text \<open>
  Termination. A call of \<^verbatim>\<open>visit\<close> that returns leaves \<^verbatim>\<open>temp_visited\<close> as it found
  it, so within one call the keys of the graph outside \<^verbatim>\<open>temp_visited\<close> only become
  fewer as the recursion goes deeper.
\<close>

lemma visit_keeps_temp_visited:
  "visit_visit_neighbors_dom (Inl (graph, node, s)) \<Longrightarrow>
     temp_visited (visit graph node s) = temp_visited s"
  "visit_visit_neighbors_dom (Inr (graph, nodes, s)) \<Longrightarrow>
     temp_visited (visit_neighbors graph nodes s) = temp_visited s"
proof (induction graph node s and graph nodes s rule: visit_visit_neighbors.pinduct)
  case (1 graph node s)
  then show ?case by (auto simp: visit.psimps Let_def)
next
  case (2 graph s)
  then show ?case by (simp add: visit_neighbors.psimps)
next
  case (3 graph neighbor rest s)
  then show ?case by (simp add: visit_neighbors.psimps)
qed

termination visit
proof (relation "inv_image (less_than <*lex*> less_than)
    (\<lambda>x. case x of
       Inl (graph, node, s) \<Rightarrow> (card (fst ` set graph - temp_visited s), 1)
     | Inr (graph, nodes, s) \<Rightarrow> (card (fst ` set graph - temp_visited s), 2 * length nodes))",
    goal_cases)
  case 1
  show ?case by (intro wf_inv_image wf_lex_prod wf_less_than)
next
  case (2 graph node s x)
  show ?case
  proof (cases "node \<in> fst ` set graph")
    case True
    have "fst ` set graph - insert node (temp_visited s) \<subset> fst ` set graph - temp_visited s"
      using True 2 by auto
    then have "card (fst ` set graph - insert node (temp_visited s)) <
               card (fst ` set graph - temp_visited s)"
      by (intro psubset_card_mono) auto
    then show ?thesis using 2 by simp
  next
    case False
    then have "map_of graph node = None" by (simp add: map_of_eq_None_iff)
    then have "graph_get graph node = []" by (simp add: graph_get_def)
    moreover have "fst ` set graph - insert node (temp_visited s) = fst ` set graph - temp_visited s"
      using False by auto
    ultimately show ?thesis using 2 by simp
  qed
next
  case (3 graph neighbor rest s)
  show ?case by simp
next
  case (4 graph neighbor rest s)
  then show ?case by (simp add: visit_keeps_temp_visited)
qed

definition topological_sort :: "graph \<Rightarrow> string list" where
  "topological_sort graph =
     result (fold (\<lambda>node s. if node \<notin> visited s then visit graph node s else s)
               (map fst graph)
               \<lparr> result = [], visited = {}, temp_visited = {} \<rparr>)"

declare visit.simps [simp del]

section \<open>The state store and the planner\<close>

text \<open>
  \<^verbatim>\<open>AquaformState\<close>: the \<^verbatim>\<open>resources\<close> dict of the state document, from resource id
  to recorded descriptor. \<^verbatim>\<open>get_resource\<close>, \<^verbatim>\<open>add_resource\<close> and
  \<^verbatim>\<open>remove_resource\<close> are the three methods; \<^verbatim>\<open>save_state\<close> is modelled with the
  runs below.
\<close>

type_synonym 'r state = "(string, 'r raw_table) pydict"

definition get_resource :: "'r state \<Rightarrow> string \<Rightarrow> 'r raw_table option" where
  "get_resource state resource_id = map_of state resource_id"

definition add_resource :: "'r state \<Rightarrow> string \<Rightarrow> 'r raw_table \<Rightarrow> 'r state" where
  "add_resource state resource_id resource = AList.update resource_id resource state"

definition remove_resource :: "'r state \<Rightarrow> string \<Rightarrow> 'r state" where
  "remove_resource state resource_id = AList.delete resource_id state"

text \<open>
  A planned change: the dict with key \<^verbatim>\<open>action\<close> that \<^verbatim>\<open>plan\<close> stores under the
  resource id, with the fields each action carries.
\<close>

datatype 'c change =
    Create "'c Table"
  | Update "'c Table" changes
  | Delete string

text \<open>
  \<^verbatim>\<open>plan\<close> (the same in both files, up to log messages). The first loop handles one
  desired table: \<^verbatim>\<open>not current_state\<close> holds for a missing entry and for an empty
  dict; otherwise the recorded descriptor is parsed (which may raise) and compared. The
  second loop walks the ids of the state. The dependency graph and the order that
  \<^verbatim>\<open>plan\<close> computes are only logged.
\<close>

definition plan_table ::
  "('r, 'c) backend \<Rightarrow> 'r state \<Rightarrow> string \<times> 'c Table \<Rightarrow>
   (string, 'c change) pydict \<Rightarrow> error + (string, 'c change) pydict" where
  "plan_table b state = (\<lambda>(resource_id, table) changes.
     case get_resource state resource_id of
       None \<Rightarrow> Inr (AList.update resource_id (Create table) changes)
     | Some current_state \<Rightarrow>
         if raw_table_empty b current_state
         then Inr (AList.update resource_id (Create table) changes)
         else bind_err (from_dict b resource_id current_state) (\<lambda>old_table.
           let table_changes = compare_tables old_table table
           in if \<not> changes_empty table_changes
              then Inr (AList.update resource_id (Update table table_changes) changes)
              else Inr changes))"

definition plan_removed ::
  "('r, 'c) backend \<Rightarrow> (string, 'c Table) pydict \<Rightarrow> 'r state \<Rightarrow> string \<Rightarrow>
   (string, 'c change) pydict \<Rightarrow> (string, 'c change) pydict" where
  "plan_removed b tables state resource_id changes =
     (if map_of tables resource_id = None
      then (case get_resource state resource_id of
              None \<Rightarrow> changes
            | Some current_state \<Rightarrow>
                if raw_table_empty b current_state then changes
                else AList.update resource_id
                       (Delete (case rt_name current_state of
                                  None \<Rightarrow> resource_id | Some n \<Rightarrow> n)) changes)
      else changes)"

definition plan ::
  "('r, 'c) backend \<Rightarrow> (string, 'c Table) pydict \<Rightarrow> 'r state \<Rightarrow>
   error + (string, 'c change) pydict" where
  "plan b tables state =
     bind_err (for_each (plan_table b state) tables []) (\<lambda>changes.
       Inr (fold (plan_removed b tables state) (map fst state) changes))"

section \<open>The reconciler: \<^verbatim>\<open>apply\<close> and \<^verbatim>\<open>destroy\<close>\<close>

text \<open>
  The database is outside the program. A call to it is one of the client methods the
  reconciler uses; the database answers success or failure and moves to a new state
  \<open>'w\<close> of its own, so an answer may depend on everything that happened before. The
  first argument of a call is the connection the client was built with.
\<close>

datatype 'c call =
    Connect 'c
  | AlterTable 'c "'c Table" changes
  | CreateTable 'c "'c Table"
  | DropTable 'c string

type_synonym ('w, 'c) database = "'w \<Rightarrow> 'c call \<Rightarrow> bool \<times> 'w"

text \<open>
  How each file gets a client for the connection fields of a table. \<^verbatim>\<open>aquaform.py\<close>
  resolves the two fields with \<^verbatim>\<open>_resolve_vars\<close> and builds a \<^verbatim>\<open>SupabaseClient\<close>,
  which cannot fail. \<^verbatim>\<open>aquaformmy.py\<close> builds a \<^verbatim>\<open>MySQLClient\<close> from the fields as
  they are and calls \<^verbatim>\<open>connect()\<close>; when that fails the resource is skipped.
\<close>

type_synonym ('w, 'c) client = "'w \<Rightarrow> 'c \<Rightarrow> 'c option \<times> 'w"

definition supabase_client :: "environ \<Rightarrow> ('w, supabase_conn) client" where
  "supabase_client environ w conn =
     (let (u, k) = resolve_vars environ (url conn) (key conn)
      in (Some \<lparr> url = u, key = k \<rparr>, w))"

definition mysql_client :: "('w, mysql_conn) database \<Rightarrow> ('w, mysql_conn) client" where
  "mysql_client db w conn =
     (let (ok, w1) = db w (Connect conn) in (if ok then Some conn else None, w1))"

text \<open>
  What a run leaves behind: the database, the state in memory, what \<^verbatim>\<open>save_state\<close>
  wrote to the state file during the run (\<open>None\<close> when it was not called), and one
  event for each resource the run worked on, in order, with the outcome.
\<close>

datatype action = ActUpdate | ActCreate | ActDelete

record event =
  ev_resource_id :: string
  ev_action :: action
  ev_table_name :: string
  ev_ok :: bool

record ('w, 'r) run =
  world :: 'w
  mem_state :: "'r state"
  events :: "event list"
  written :: "'r state option"

definition start :: "'w \<Rightarrow> 'r state \<Rightarrow> ('w, 'r) run" where
  "start w state = \<lparr> world = w, mem_state = state, events = [], written = None \<rparr>"

definition save_state :: "('w, 'r) run \<Rightarrow> ('w, 'r) run" where
  "save_state r = r \<lparr> written := Some (mem_state r) \<rparr>"

text \<open>
  The regrouping of the plan in \<^verbatim>\<open>apply\<close>: three dicts keyed by table name, in the
  order \<^verbatim>\<open>create_actions\<close>, \<^verbatim>\<open>update_actions\<close>, \<^verbatim>\<open>delete_actions\<close>.
\<close>

type_synonym 'c groups =
  "(string, string \<times> 'c Table) pydict \<times> (string, string \<times> 'c Table \<times> changes) pydict \<times>
   (string, string) pydict"

fun group_change :: "string \<times> 'c change \<Rightarrow> 'c groups \<Rightarrow> 'c groups" where
  "group_change (resource_id, Create table) (creates, updates, deletes) =
     (AList.update (t_name table) (resource_id, table) creates, updates, deletes)"
| "group_change (resource_id, Update table table_changes) (creates, updates, deletes) =
     (creates, AList.update (t_name table) (resource_id, table, table_changes) updates, deletes)"
| "group_change (resource_id, Delete table_name) (creates, updates, deletes) =
     (creates, updates, AList.update table_name resource_id deletes)"

definition group_changes :: "(string, 'c change) pydict \<Rightarrow> 'c groups" where
  "group_changes changes = fold group_change changes ([], [], [])"

text \<open>The body of each of the three loops of \<^verbatim>\<open>apply\<close> over \<^verbatim>\<open>table_order\<close>.\<close>

definition update_step ::
  "('r, 'c) backend \<Rightarrow> ('w, 'c) client \<Rightarrow> ('w, 'c) database \<Rightarrow>
   (string, string \<times> 'c Table \<times> changes) pydict \<Rightarrow> string \<Rightarrow> ('w, 'r) run \<Rightarrow> ('w, 'r) run" where
  "update_step b client db update_actions table_name r =
     (case map_of update_actions table_name of
        None \<Rightarrow> r
      | Some (resource_id, table, table_changes) \<Rightarrow>
          (case client (world r) (t_conn table) of
             (None, w1) \<Rightarrow>
               r \<lparr> world := w1,
                   events := events r @ [\<lparr> ev_resource_id = resource_id, ev_action = ActUpdate,
                      ev_table_name = table_name, ev_ok = False \<rparr>] \<rparr>
           | (Some c, w1) \<Rightarrow>
               (let (ok, w2) = db w1 (AlterTable c table table_changes)
                in r \<lparr> world := w2,
                       mem_state := (if ok then add_resource (mem_state r) resource_id (to_dict b table)
                                     else mem_state r),
                       events := events r @ [\<lparr> ev_resource_id = resource_id, ev_action = ActUpdate,
                          ev_table_name = table_name, ev_ok = ok \<rparr>] \<rparr>)))"

definition create_step ::
  "('r, 'c) backend \<Rightarrow> ('w, 'c) client \<Rightarrow> ('w, 'c) database \<Rightarrow>
   (string, string \<times> 'c Table) pydict \<Rightarrow> string \<Rightarrow> ('w, 'r) run \<Rightarrow> ('w, 'r) run" where
  "create_step b client db create_actions table_name r =
     (case map_of create_actions table_name of
        None \<Rightarrow> r
      | Some (resource_id, table) \<Rightarrow>
          (case client (world r) (t_conn table) of
             (None, w1) \<Rightarrow>
               r \<lparr> world := w1,
                   events := events r @ [\<lparr> ev_resource_id = resource_id, ev_action = ActCreate,
                      ev_table_name = table_name, ev_ok = False \<rparr>] \<rparr>
           | (Some c, w1) \<Rightarrow>
               (let (ok, w2) = db w1 (CreateTable c table)
                in r \<lparr> world := w2,
                       mem_state := (if ok then add_resource (mem_state r) resource_id (to_dict b table)
                                     else mem_state r),
                       events := events r @ [\<lparr> ev_resource_id = resource_id, ev_action = ActCreate,
                          ev_table_name = table_name, ev_ok = ok \<rparr>] \<rparr>)))"

text \<open>
  Dropping the table of a recorded resource: the connection fields are read from the
  recorded descriptor (a missing one raises \<^verbatim>\<open>KeyError\<close>), the client is opened, the
  table is dropped and, on success, the resource leaves the state. \<^verbatim>\<open>apply\<close> and the
  destroy-all branch of \<^verbatim>\<open>destroy\<close> share these lines.
\<close>

definition drop_resource ::
  "('r, 'c) backend \<Rightarrow> ('w, 'c) client \<Rightarrow> ('w, 'c) database \<Rightarrow>
   string \<Rightarrow> string \<Rightarrow> 'r raw_table \<Rightarrow> ('w, 'r) run \<Rightarrow> error + ('w, 'r) run" where
  "drop_resource b client db resource_id table_name current_state r =
     bind_err (conn_from_dict b (rt_conn current_state)) (\<lambda>conn.
       case client (world r) conn of
         (None, w1) \<Rightarrow>
           Inr (r \<lparr> world := w1,
                    events := events r @ [\<lparr> ev_resource_id = resource_id, ev_action = ActDelete,
                       ev_table_name = table_name, ev_ok = False \<rparr>] \<rparr>)
       | (Some c, w1) \<Rightarrow>
           (let (ok, w2) = db w1 (DropTable c table_name)
            in Inr (r \<lparr> world := w2,
                        mem_state := (if ok then remove_resource (mem_state r) resource_id
                                      else mem_state r),
                        events := events r @ [\<lparr> ev_resource_id = resource_id, ev_action = ActDelete,
                           ev_table_name = table_name, ev_ok = ok \<rparr>] \<rparr>)))"

definition delete_step ::
  "('r, 'c) backend \<Rightarrow> ('w, 'c) client \<Rightarrow> ('w, 'c) database \<Rightarrow>
   (string, string) pydict \<Rightarrow> string \<Rightarrow> ('w, 'r) run \<Rightarrow> error + ('w, 'r) run" where
  "delete_step b client db delete_actions table_name r =
     (case map_of delete_actions table_name of
        None \<Rightarrow> Inr r
      | Some resource_id \<Rightarrow>
          (case get_resource (mem_state r) resource_id of
             None \<Rightarrow> Inl TypeError
           | Some current_state \<Rightarrow>
               drop_resource b client db resource_id table_name current_state r))"

text \<open>
  \<^verbatim>\<open>apply\<close>. The two files differ in the client and in the order of the third loop:
  \<^verbatim>\<open>aquaform.py\<close> walks \<^verbatim>\<open>table_order\<close> itself, \<^verbatim>\<open>aquaformmy.py\<close> walks
  \<^verbatim>\<open>reversed(table_order)\<close>; \<open>delete_order\<close> is that difference. An empty plan
  returns before anything is saved.
\<close>

definition apply_with ::
  "('r, 'c) backend \<Rightarrow> ('w, 'c) client \<Rightarrow> (string list \<Rightarrow> string list) \<Rightarrow> ('w, 'c) database \<Rightarrow>
   'w \<Rightarrow> (string, 'c Table) pydict \<Rightarrow> 'r state \<Rightarrow> error + ('w, 'r) run" where
  "apply_with b client delete_order db w tables state =
     bind_err (plan b tables state) (\<lambda>changes.
       if changes = [] then Inr (start w state)
       else
         (let table_order = topological_sort (build_dependency_graph tables);
              (create_actions, update_actions, delete_actions) = group_changes changes;
              r1 = fold (update_step b client db update_actions) table_order (start w state);
              r2 = fold (create_step b client db create_actions) table_order r1
          in bind_err (for_each (delete_step b client db delete_actions)
                         (delete_order table_order) r2)
               (\<lambda>r3. Inr (save_state r3))))"

definition aquaform_apply ::
  "environ \<Rightarrow> ('w, supabase_conn) database \<Rightarrow> 'w \<Rightarrow> (string, supabase_conn Table) pydict \<Rightarrow>
   raw_supabase_conn state \<Rightarrow> error + ('w, raw_supabase_conn) run" where
  "aquaform_apply environ db =
     apply_with supabase (supabase_client environ) (\<lambda>table_order. table_order) db"

definition aquaformmy_apply ::
  "('w, mysql_conn) database \<Rightarrow> 'w \<Rightarrow> (string, mysql_conn Table) pydict \<Rightarrow>
   raw_mysql_conn state \<Rightarrow> error + ('w, raw_mysql_conn) run" where
  "aquaformmy_apply db = apply_with mysql (mysql_client db) rev db"

text \<open>
  \<^verbatim>\<open>destroy(resource_id)\<close> with a truthy id: an unknown resource is reported and
  nothing more happens; a failed connection (MySQL) or a failed drop leaves the state
  unsaved; only a successful drop removes the resource and saves.
\<close>

definition destroy_one ::
  "('r, 'c) backend \<Rightarrow> ('w, 'c) client \<Rightarrow> ('w, 'c) database \<Rightarrow>
   'w \<Rightarrow> 'r state \<Rightarrow> string \<Rightarrow> error + ('w, 'r) run" where
  "destroy_one b client db w state resource_id =
     (case get_resource state resource_id of
        None \<Rightarrow> Inr (start w state)
      | Some current_state \<Rightarrow>
          if raw_table_empty b current_state then Inr (start w state)
          else
            (let table_name = (case rt_name current_state of
                                 None \<Rightarrow> resource_id | Some n \<Rightarrow> n)
             in bind_err (conn_from_dict b (rt_conn current_state)) (\<lambda>conn.
                  case client w conn of
                    (None, w1) \<Rightarrow>
                      Inr ((start w1 state)
                        \<lparr> events := [\<lparr> ev_resource_id = resource_id, ev_action = ActDelete,
                             ev_table_name = table_name, ev_ok = False \<rparr>] \<rparr>)
                  | (Some c, w1) \<Rightarrow>
                      (let (ok, w2) = db w1 (DropTable c table_name)
                       in if ok
                          then Inr (save_state ((start w2 (remove_resource state resource_id))
                            \<lparr> events := [\<lparr> ev_resource_id = resource_id, ev_action = ActDelete,
                                 ev_table_name = table_name, ev_ok = True \<rparr>] \<rparr>))
                          else Inr ((start w2 state)
                            \<lparr> events := [\<lparr> ev_resource_id = resource_id, ev_action = ActDelete,
                                 ev_table_name = table_name, ev_ok = False \<rparr>] \<rparr>)))))"

text \<open>
  \<^verbatim>\<open>destroy()\<close> without an id. \<^verbatim>\<open>table_name_to_resource\<close> maps the name of every
  desired table to its resource id, then every recorded name that is truthy and not yet
  a key to its resource id. The loop walks \<^verbatim>\<open>table_order\<close>, the topological order of
  the desired tables (\<^verbatim>\<open>aquaformmy.py\<close> reverses it first), and skips a name whose
  resource id is missing or falsy, or whose resource has no truthy state entry.
\<close>

definition table_name_to_resource ::
  "(string, 'c Table) pydict \<Rightarrow> 'r state \<Rightarrow> (string, string) pydict" where
  "table_name_to_resource tables state =
     fold (\<lambda>(resource_id, state_data) m.
             case rt_name state_data of
               None \<Rightarrow> m
             | Some table_name \<Rightarrow>
                 if table_name \<noteq> [] \<and> map_of m table_name = None
                 then AList.update table_name resource_id m else m)
          state
          (fold (\<lambda>(resource_id, table) m. AList.update (t_name table) resource_id m) tables [])"

definition destroy_step ::
  "('r, 'c) backend \<Rightarrow> ('w, 'c) client \<Rightarrow> ('w, 'c) database \<Rightarrow>
   (string, string) pydict \<Rightarrow> string \<Rightarrow> ('w, 'r) run \<Rightarrow> error + ('w, 'r) run" where
  "destroy_step b client db name_to_resource table_name r =
     (case map_of name_to_resource table_name of
        None \<Rightarrow> Inr r
      | Some resource_id \<Rightarrow>
          if resource_id = [] then Inr r
          else (case get_resource (mem_state r) resource_id of
                  None \<Rightarrow> Inr r
                | Some state_data \<Rightarrow>
                    if raw_table_empty b state_data then Inr r
                    else drop_resource b client db resource_id table_name state_data r))"

definition destroy_all ::
  "('r, 'c) backend \<Rightarrow> ('w, 'c) client \<Rightarrow> (string list \<Rightarrow> string list) \<Rightarrow> ('w, 'c) database \<Rightarrow>
   'w \<Rightarrow> (string, 'c Table) pydict \<Rightarrow> 'r state \<Rightarrow> error + ('w, 'r) run" where
  "destroy_all b client delete_order db w tables state =
     (let table_order = delete_order (topological_sort (build_dependency_graph tables));
          name_to_resource = table_name_to_resource tables state
      in if name_to_resource = [] then Inr (start w state)
         else bind_err (for_each (destroy_step b client db name_to_resource) table_order
                          (start w state))
                (\<lambda>r. Inr (save_state r)))"

text \<open>\<^verbatim>\<open>destroy\<close>: \<^verbatim>\<open>if resource_id:\<close> is false for \<^verbatim>\<open>None\<close> and for the empty string.\<close>

definition destroy_with ::
  "('r, 'c) backend \<Rightarrow> ('w, 'c) client \<Rightarrow> (string list \<Rightarrow> string list) \<Rightarrow> ('w, 'c) database \<Rightarrow>
   'w \<Rightarrow> (string, 'c Table) pydict \<Rightarrow> 'r state \<Rightarrow> string option \<Rightarrow> error + ('w, 'r) run" where
  "destroy_with b client delete_order db w tables state resource_id =
     (case resource_id of
        None \<Rightarrow> destroy_all b client delete_order db w tables state
      | Some rid \<Rightarrow>
          if rid \<noteq> [] then destroy_one b client db w state rid
          else destroy_all b client delete_order db w tables state)"

definition aquaform_destroy ::
  "environ \<Rightarrow> ('w, supabase_conn) database \<Rightarrow> 'w \<Rightarrow> (string, supabase_conn Table) pydict \<Rightarrow>
   raw_supabase_conn state \<Rightarrow> string option \<Rightarrow> error + ('w, raw_supabase_conn) run" where
  "aquaform_destroy environ db =
     destroy_with supabase (supabase_client environ) (\<lambda>table_order. table_order) db"

definition aquaformmy_destroy ::
  "('w, mysql_conn) database \<Rightarrow> 'w \<Rightarrow> (string, mysql_conn Table) pydict \<Rightarrow>
   raw_mysql_conn state \<Rightarrow> string option \<Rightarrow> error + ('w, raw_mysql_conn) run" where
  "aquaformmy_destroy db = destroy_with mysql (mysql_client db) rev db"

section \<open>Predicates on descriptors and tables\<close>





section \<open>Predicates on graphs and orders\<close>

text \<open>
  The edges of a graph: \<open>a\<close> points to \<open>b\<close> when \<open>b\<close> is in the list stored for \<open>a\<close>.
  A list is \<open>ordered\<close> for the graph when it has no repetition and every entry comes
  after all the nodes it points to. \<open>sort_inv\<close> is what holds of the state of
  \<^verbatim>\<open>_topological_sort\<close> between two calls of \<^verbatim>\<open>visit\<close>.
\<close>

definition edges :: "graph \<Rightarrow> (string \<times> string) set" where
  "edges g = {(a, b). b \<in> set (graph_get g a)}"

definition ordered :: "graph \<Rightarrow> string list \<Rightarrow> bool" where
  "ordered g res \<longleftrightarrow>
     distinct res \<and> (\<forall>xs a ys. res = xs @ a # ys \<longrightarrow> set (graph_get g a) \<subseteq> set xs)"

definition sort_inv :: "graph \<Rightarrow> sort_state \<Rightarrow> bool" where
  "sort_inv g s \<longleftrightarrow>
     visited s = set (result s) \<and> ordered g (result s) \<and> temp_visited s \<inter> visited s = {}"

text \<open>
  \<open>precedes x y xs\<close>: \<open>y\<close> occurs in \<open>xs\<close> after the first occurrence of \<open>x\<close>.
\<close>

definition precedes :: "'a \<Rightarrow> 'a \<Rightarrow> 'a list \<Rightarrow> bool" where
  "precedes x y xs \<longleftrightarrow> y \<in> set (tl (dropWhile (\<lambda>z. z \<noteq> x) xs))"

text \<open>
  \<open>visit_inv\<close> is the part of \<open>sort_inv\<close> that holds on every graph, cyclic or not.
\<close>

definition visit_inv :: "sort_state \<Rightarrow> bool" where
  "visit_inv s \<longleftrightarrow>
     visited s = set (result s) \<and> distinct (result s) \<and> temp_visited s \<inter> visited s = {}"

text \<open>
  The dependency relation as the specification words it: \<open>A\<close> depends on \<open>B\<close> when a
  desired table named \<open>A\<close> has a foreign key that references \<open>B\<close> and \<open>B\<close> is the name
  of a desired table.
\<close>

definition fk_edges :: "(string, 'c Table) pydict \<Rightarrow> (string \<times> string) set" where
  "fk_edges tables =
     {(t_name a, fk_reference_table fk) | rid a fk.
        (rid, a) \<in> set tables \<and> fk \<in> set (or_empty (t_foreign_keys a)) \<and>
        fk_reference_table fk \<in> t_name ` snd ` set tables}"

section \<open>Predicates on states and plans\<close>

text \<open>
  A state as the state store keeps it: a dict (no id twice) whose entries are table
  descriptors, that is, \<^verbatim>\<open>Table.from_dict\<close> parses each of them.
\<close>

definition parses :: "('r, 'c) backend \<Rightarrow> string \<times> 'r raw_table \<Rightarrow> bool" where
  "parses b = (\<lambda>(resource_id, recorded).
     case from_dict b resource_id recorded of Inr t \<Rightarrow> True | Inl e \<Rightarrow> False)"

definition state_ok :: "('r, 'c) backend \<Rightarrow> 'r state \<Rightarrow> bool" where
  "state_ok b state \<longleftrightarrow> distinct (map fst state) \<and> list_all (parses b) state"

text \<open>
  The planner's output as the specification words it, for one resource id: a desired
  table without a recorded entry is created; a desired table whose recorded descriptor,
  parsed back, differs from it is updated with the delta, and is left alone when the
  delta is empty; a recorded resource that is not desired is deleted.
\<close>

definition expected_change ::
  "('r, 'c) backend \<Rightarrow> (string, 'c Table) pydict \<Rightarrow> 'r state \<Rightarrow> string \<Rightarrow> 'c change option" where
  "expected_change b tables state resource_id =
     (case map_of tables resource_id of
        Some table \<Rightarrow>
          (case map_of state resource_id of
             None \<Rightarrow> Some (Create table)
           | Some recorded \<Rightarrow>
               (case from_dict b resource_id recorded of
                  Inr old \<Rightarrow>
                    if changes_empty (compare_tables old table) then None
                    else Some (Update table (compare_tables old table))
                | Inl e \<Rightarrow> None))
      | None \<Rightarrow>
          (case map_of state resource_id of
             None \<Rightarrow> None
           | Some recorded \<Rightarrow>
               (case from_dict b resource_id recorded of
                  Inr old \<Rightarrow> Some (Delete (t_name old))
                | Inl e \<Rightarrow> None)))"

text \<open>
  A backend whose connection fields survive \<^verbatim>\<open>to_dict\<close> followed by \<^verbatim>\<open>from_dict\<close>
  (both do), and the table that \<^verbatim>\<open>from_dict\<close> reads back from \<^verbatim>\<open>to_dict\<close>: the
  same table, except that a falsy list of foreign keys comes back as \<^verbatim>\<open>None\<close> and the
  resource id is the one passed in.
\<close>

definition conn_roundtrip :: "('r, 'c) backend \<Rightarrow> bool" where
  "conn_roundtrip b \<longleftrightarrow> (\<forall>c. conn_from_dict b (conn_to_dict b c) = Inr c)"


section \<open>Predicates on runs\<close>

text \<open>
  The phase and table name of a planned change and of an event; the entries of a plan
  that fall under one phase and name; and the state that results from applying, in
  order, the effect of every successful event of a run: \<^verbatim>\<open>add_resource\<close> with
  \<^verbatim>\<open>table.to_dict()\<close> for a create or an update, \<^verbatim>\<open>remove_resource\<close> for a delete.
\<close>

fun change_key :: "'c change \<Rightarrow> action \<times> string" where
  "change_key (Create table) = (ActCreate, t_name table)"
| "change_key (Update table table_changes) = (ActUpdate, t_name table)"
| "change_key (Delete table_name) = (ActDelete, table_name)"


definition same_key :: "(string, 'c change) pydict \<Rightarrow> action \<times> string \<Rightarrow> (string \<times> 'c change) list" where
  "same_key changes k = filter (\<lambda>(resource_id, c). change_key c = k) changes"

fun effect :: "('r, 'c) backend \<Rightarrow> string \<Rightarrow> 'c change \<Rightarrow> 'r state \<Rightarrow> 'r state" where
  "effect b resource_id (Create table) state = add_resource state resource_id (to_dict b table)"
| "effect b resource_id (Update table table_changes) state =
     add_resource state resource_id (to_dict b table)"
| "effect b resource_id (Delete table_name) state = remove_resource state resource_id"

fun replay ::
  "('r, 'c) backend \<Rightarrow> (string, 'c change) pydict \<Rightarrow> event list \<Rightarrow> 'r state \<Rightarrow> 'r state" where
  "replay b changes [] state = state"
| "replay b changes (e # es) state =
     replay b changes es
       (if ev_ok e
        then (case map_of changes (ev_resource_id e) of
                None \<Rightarrow> state
              | Some c \<Rightarrow> effect b (ev_resource_id e) c state)
        else state)"

text \<open>
  The resources a run of \<^verbatim>\<open>apply\<close> works on, computed from the plan alone: for each
  phase, walking the order of that phase, the last entry of the plan with that phase
  and table name, when there is one.
\<close>

definition winners ::
  "(string, 'c change) pydict \<Rightarrow> action \<Rightarrow> string list \<Rightarrow> (string \<times> action \<times> string) list" where
  "winners changes act names =
     concat (map (\<lambda>n. case same_key changes (act, n) of
                           [] \<Rightarrow> []
                         | x # xs \<Rightarrow> [(fst (last (x # xs)), act, n)]) names)"

definition schedule ::
  "(string list \<Rightarrow> string list) \<Rightarrow> (string, 'c Table) pydict \<Rightarrow> (string, 'c change) pydict \<Rightarrow>
   (string \<times> action \<times> string) list" where
  "schedule delete_order tables changes =
     (let table_order = topological_sort (build_dependency_graph tables)
      in winners changes ActUpdate table_order @ winners changes ActCreate table_order @
         winners changes ActDelete (delete_order table_order))"

definition event_id :: "event \<Rightarrow> string \<times> action \<times> string" where
  "event_id e = (ev_resource_id e, ev_action e, ev_table_name e)"

text \<open>
  \<open>all_succeed\<close>: the client always opens and every database call succeeds.
  \<open>extends\<close> relates a run to a later point of itself: new events with the given
  resources, phases and table names were appended, the state in memory is the earlier
  one with the successful new events replayed, and nothing was saved in between.
\<close>

definition all_succeed :: "('w, 'c) client \<Rightarrow> ('w, 'c) database \<Rightarrow> bool" where
  "all_succeed client db \<longleftrightarrow> (\<forall>w c. fst (db w c)) \<and> (\<forall>w c. fst (client w c) \<noteq> None)"

definition extends ::
  "('r, 'c) backend \<Rightarrow> (string, 'c change) pydict \<Rightarrow> (string \<times> action \<times> string) list \<Rightarrow> bool \<Rightarrow>
   ('w, 'r) run \<Rightarrow> ('w, 'r) run \<Rightarrow> bool" where
  "extends b changes ids all_ok r r' \<longleftrightarrow>
     (\<exists>es. events r' = events r @ es \<and> map event_id es = ids \<and>
           mem_state r' = replay b changes es (mem_state r) \<and> written r' = written r \<and>
           (all_ok \<longrightarrow> (\<forall>e \<in> set es. ev_ok e)))"


section \<open>Concrete inputs\<close>

text \<open>Small tables on which the theorems below are evaluated.\<close>

definition example_fk :: "string \<Rightarrow> string \<Rightarrow> string \<Rightarrow> ForeignKey" where
  "example_fk c t a =
     \<lparr> fk_columns = [c], fk_reference_table = t, fk_reference_columns = [''id''],
       fk_on_delete = a, fk_on_update = ''NO ACTION'' \<rparr>"

definition example_column :: "string \<Rightarrow> Column" where
  "example_column n =
     \<lparr> col_name = n, col_type = ''INT'', col_nullable = False, col_default = None \<rparr>"

definition example_table :: "string \<Rightarrow> string \<Rightarrow> ForeignKey list option \<Rightarrow> supabase_conn Table" where
  "example_table rid n fks =
     \<lparr> t_name = n, t_conn = \<lparr> url = ''u'', key = ''k'' \<rparr>,
       t_columns = [example_column ''id''],
       t_primary_key = [''id''], t_foreign_keys = fks, t_resource_id = rid \<rparr>"

text \<open>
  Recorded: foreign keys on \<open>c\<close> and \<open>a\<close>. Desired: the key on \<open>a\<close> now cascades, the
  key on \<open>c\<close> is gone and a key on \<open>b\<close> is new.
\<close>

definition diff_old :: "supabase_conn Table" where
  "diff_old = example_table ''r'' ''t''
     (Some [example_fk ''c'' ''z'' ''NO ACTION'', example_fk ''a'' ''x'' ''NO ACTION''])"

definition diff_new :: "supabase_conn Table" where
  "diff_new = example_table ''r'' ''t''
     (Some [example_fk ''a'' ''x'' ''CASCADE'', example_fk ''b'' ''y'' ''NO ACTION''])"

text \<open>An environment that defines \<open>X\<close> only.\<close>

definition example_environ :: environ where
  "example_environ = [''X'' \<mapsto> ''v'']"





text \<open>
  Scenario S1 of the specification: \<open>posts\<close> references \<open>users\<close>. The configuration lists
  \<open>posts\<close> first.
\<close>

definition users :: "supabase_conn Table" where
  "users = example_table ''users_table'' ''users'' None"

definition posts :: "supabase_conn Table" where
  "posts = example_table ''posts_table'' ''posts''
     (Some [example_fk ''user_id'' ''users'' ''CASCADE''])"

definition blog :: "(string, supabase_conn Table) pydict" where
  "blog = [(''posts_table'', posts), (''users_table'', users)]"

text \<open>
  The state after a first successful apply of \<open>blog\<close>, a database on which every call
  succeeds, and one on which every call fails.
\<close>

definition blog_state :: "raw_supabase_conn state" where
  "blog_state = [(''users_table'', to_dict supabase users), (''posts_table'', to_dict supabase posts)]"

definition always_ok :: "(unit, 'c) database" where
  "always_ok w c = (True, w)"

definition always_fails :: "(unit, 'c) database" where
  "always_fails w c = (False, w)"

definition dropped :: "string \<Rightarrow> string \<Rightarrow> bool \<Rightarrow> event" where
  "dropped resource_id table_name ok =
     \<lparr> ev_resource_id = resource_id, ev_action = ActDelete, ev_table_name = table_name,
       ev_ok = ok \<rparr>"

text \<open>
  A state that records the two tables of \<open>blog\<close> under other resource ids, so that a
  plan for \<open>blog\<close> creates both resources and deletes the two recorded ones.
\<close>

definition renamed_state :: "raw_supabase_conn state" where
  "renamed_state = [(''old_users'', to_dict supabase users), (''old_posts'', to_dict supabase posts)]"

definition applied :: "string \<Rightarrow> action \<Rightarrow> string \<Rightarrow> bool \<Rightarrow> event" where
  "applied resource_id act table_name ok =
     \<lparr> ev_resource_id = resource_id, ev_action = act, ev_table_name = table_name, ev_ok = ok \<rparr>"

text \<open>
  A state that records \<open>users\<close> with another primary key under its own id, and
  \<open>posts\<close> under an id that is not desired.
\<close>

definition mixed_state :: "raw_supabase_conn state" where
  "mixed_state =
     [(''users_table'', to_dict supabase (users \<lparr> t_primary_key := [''id'', ''x''] \<rparr>)),
      (''old_posts'', to_dict supabase posts)]"

definition pk_changed :: changes where
  "pk_changed =
     \<lparr> add_columns = [], modify_columns = [], remove_columns = [],
       modify_primary_key = Some ([''id'', ''x''], [''id'']),
       add_foreign_keys = [], remove_foreign_keys = [] \<rparr>"

text \<open>
  A database on which creating \<open>users\<close> fails and every other call succeeds, and a
  configuration with two resources for one table name.
\<close>

definition users_fail :: "(unit, supabase_conn) database" where
  "users_fail w c =
     ((case c of CreateTable conn t \<Rightarrow> t_name t \<noteq> ''users'' | _ \<Rightarrow> True), w)"


text \<open>The same two tables and state for the MySQL file.\<close>

definition with_mysql_conn :: "supabase_conn Table \<Rightarrow> mysql_conn Table" where
  "with_mysql_conn t =
     \<lparr> t_name = t_name t,
       t_conn = \<lparr> host = ''h'', user = ''u'', password = ''p'', database = ''d'' \<rparr>,
       t_columns = t_columns t, t_primary_key = t_primary_key t,
       t_foreign_keys = t_foreign_keys t, t_resource_id = t_resource_id t \<rparr>"

definition mysql_blog :: "(string, mysql_conn Table) pydict" where
  "mysql_blog = [(''posts_table'', with_mysql_conn posts), (''users_table'', with_mysql_conn users)]"

definition mysql_blog_state :: "raw_mysql_conn state" where
  "mysql_blog_state =
     [(''users_table'', to_dict mysql (with_mysql_conn users)),
      (''posts_table'', to_dict mysql (with_mysql_conn posts))]"

section \<open>Facts about dictionaries\<close>

lemma update_fresh:
  "k \<notin> fst ` set al \<Longrightarrow> AList.update k v al = al @ [(k, v)]"
  by (induction al) auto

lemma fold_update_distinct:
  "distinct (map f xs) \<Longrightarrow> f ` set xs \<inter> fst ` set acc = {} \<Longrightarrow>
   fold (\<lambda>x d. AList.update (f x) x d) xs acc = acc @ map (\<lambda>x. (f x, x)) xs"
proof (induction xs arbitrary: acc)
  case Nil
  then show ?case by simp
next
  case (Cons x xs)
  from Cons.prems have fresh: "f x \<notin> fst ` set acc" by auto
  have step: "AList.update (f x) x acc = acc @ [(f x, x)]"
    using fresh by (rule update_fresh)
  have disj: "f ` set xs \<inter> fst ` set (acc @ [(f x, x)]) = {}"
    using Cons.prems by auto
  have "distinct (map f xs)" using Cons.prems by simp
  from Cons.IH [OF this disj] show ?case by (simp add: step)
qed

lemma dict_of_distinct:
  "distinct (map f xs) \<Longrightarrow> dict_of f xs = map (\<lambda>x. (f x, x)) xs"
  unfolding dict_of_def using fold_update_distinct [of f xs "[]"] by simp

lemma only_in_distinct:
  "only_in (map (\<lambda>x. (f x, x)) xs) m = filter (\<lambda>x. map_of m (f x) = None) xs"
  unfolding only_in_def by (induction xs) auto

lemma modified_pairs_snd:
  "map snd (modified_pairs eq om (map (\<lambda>x. (f x, x)) xs)) =
   filter (\<lambda>x. case map_of om (f x) of None \<Rightarrow> False | Some old \<Rightarrow> \<not> eq x old) xs"
  unfolding modified_pairs_def by (induction xs) (auto split: option.splits)

lemma modified_pairs_fst:
  "map fst (modified_pairs eq om (map (\<lambda>x. (f x, x)) xs)) =
   map (\<lambda>x. the (map_of om (f x)))
     (filter (\<lambda>x. case map_of om (f x) of None \<Rightarrow> False | Some old \<Rightarrow> \<not> eq x old) xs)"
  unfolding modified_pairs_def by (induction xs) (auto split: option.splits)

section \<open>Facts about the diff\<close>

lemma foreign_key_equals_iff: "foreign_key_equals a b \<longleftrightarrow> a = b"
  by (cases a; cases b) (auto simp: foreign_key_equals_def)


lemma map_of_keyed_None:
  "map_of (map (\<lambda>x. (f x, x)) xs) k = None \<longleftrightarrow> k \<notin> f ` set xs"
  by (induction xs) auto

lemma map_of_keyed_Some:
  "distinct (map f xs) \<Longrightarrow>
   map_of (map (\<lambda>x. (f x, x)) xs) k = Some y \<longleftrightarrow> y \<in> set xs \<and> f y = k"
  by (induction xs) (auto simp: rev_image_eqI)

lemma set_modified_pairs:
  "set (modified_pairs eq om nm) =
   {(old, new). \<exists>k. (k, new) \<in> set nm \<and> map_of om k = Some old \<and> \<not> eq new old}"
  unfolding modified_pairs_def by (auto split: option.splits if_splits)

lemmas example_defs =
  example_fk_def example_column_def example_table_def diff_old_def diff_new_def

lemmas compare_defs =
  compare_tables_def dict_of_def only_in_def modified_pairs_def
  foreign_key_equals_def column_equals_def Let_def

section \<open>Facts about the variable resolver\<close>

lemma var_form_iff:
  "prefix ''${'' v \<and> suffix ''}'' v \<longleftrightarrow> (\<exists>ident. v = ''${'' @ ident @ ''}'')"
proof
  assume a: "prefix ''${'' v \<and> suffix ''}'' v"
  then obtain r where r: "v = ''${'' @ r" by (auto simp: prefix_def)
  from a obtain l where l: "v = l @ ''}''" by (auto simp: suffix_def)
  from r l have "r \<noteq> []" by auto
  then obtain m c where m: "r = m @ [c]" by (cases r rule: rev_cases) auto
  with r l have "c = CHR ''}''" by auto
  with r m show "\<exists>ident. v = ''${'' @ ident @ ''}''" by auto
next
  assume "\<exists>ident. v = ''${'' @ ident @ ''}''"
  then obtain i where "v = ''${'' @ i @ ''}''" by blast
  then show "prefix ''${'' v \<and> suffix ''}'' v" by (auto simp: suffix_def)
qed

lemma var_slice: "drop 2 (butlast (''${'' @ ident @ ''}'')) = ident"
  by (simp add: butlast_append)

section \<open>Facts about descriptors and the loader\<close>

lemma bind_err_Inr_iff:
  "bind_err m f = Inr y \<longleftrightarrow> (\<exists>x. m = Inr x \<and> f x = Inr y)"
  by (cases m) (auto simp: bind_err_def)

lemma getitem_Inr_iff: "getitem k v = Inr x \<longleftrightarrow> v = Some x"
  by (cases v) auto

lemma map_err_Inr_iff:
  "map_err f xs = Inr ys \<longleftrightarrow> list_all2 (\<lambda>x y. f x = Inr y) xs ys"
proof (induction xs arbitrary: ys)
  case Nil
  then show ?case by auto
next
  case (Cons x xs)
  then show ?case by (cases ys) (auto simp: bind_err_Inr_iff)
qed






section \<open>Facts about the topological sort\<close>

lemma ordered_snoc:
  assumes "ordered g res" "a \<notin> set res" "set (graph_get g a) \<subseteq> set res"
  shows "ordered g (res @ [a])"
  unfolding ordered_def
proof (intro conjI allI impI)
  show "distinct (res @ [a])" using assms by (simp add: ordered_def)
next
  fix xs b ys
  assume eq: "res @ [a] = xs @ b # ys"
  show "set (graph_get g b) \<subseteq> set xs"
  proof (cases ys rule: rev_cases)
    case Nil
    with eq have "xs = res" "b = a" by auto
    then show ?thesis using assms(3) by simp
  next
    case (snoc ys' y)
    with eq have "res = xs @ b # ys'" by auto
    then show ?thesis using assms(1) by (auto simp: ordered_def)
  qed
qed

lemma visit_correct:
  "acyclic (edges g) \<longrightarrow> sort_inv g s \<longrightarrow> (\<forall>t \<in> temp_visited s. (t, node) \<in> (edges g)\<^sup>+) \<longrightarrow>
     sort_inv g (visit g node s) \<and> temp_visited (visit g node s) = temp_visited s \<and>
     node \<in> visited (visit g node s) \<and> visited s \<subseteq> visited (visit g node s)"
  "acyclic (edges g) \<longrightarrow> sort_inv g s \<longrightarrow>
     (\<forall>t \<in> temp_visited s. \<forall>n \<in> set nodes. (t, n) \<in> (edges g)\<^sup>+) \<longrightarrow>
     sort_inv g (visit_neighbors g nodes s) \<and>
     temp_visited (visit_neighbors g nodes s) = temp_visited s \<and>
     set nodes \<subseteq> visited (visit_neighbors g nodes s) \<and>
     visited s \<subseteq> visited (visit_neighbors g nodes s)"
proof (induction g node s and g nodes s rule: visit_visit_neighbors.induct)
  case (1 graph node s)
  show ?case
  proof (intro impI)
    assume ac: "acyclic (edges graph)" and inv: "sort_inv graph s"
      and anc: "\<forall>t \<in> temp_visited s. (t, node) \<in> (edges graph)\<^sup>+"
    show "sort_inv graph (visit graph node s) \<and>
      temp_visited (visit graph node s) = temp_visited s \<and>
      node \<in> visited (visit graph node s) \<and> visited s \<subseteq> visited (visit graph node s)"
    proof (cases "node \<in> visited s")
      case True
      then show ?thesis using inv by (simp add: visit.simps)
    next
      case nv: False
      have nt: "node \<notin> temp_visited s"
      proof
        assume "node \<in> temp_visited s"
        with anc have "(node, node) \<in> (edges graph)\<^sup>+" by blast
        with ac show False by (simp add: acyclic_def)
      qed
      define s1 where "s1 = s \<lparr> temp_visited := insert node (temp_visited s) \<rparr>"
      define s2 where "s2 = visit_neighbors graph (graph_get graph node) s1"
      have inv1: "sort_inv graph s1"
        using inv nv by (auto simp: sort_inv_def s1_def)
      have anc1: "\<forall>t \<in> temp_visited s1. \<forall>n \<in> set (graph_get graph node). (t, n) \<in> (edges graph)\<^sup>+"
      proof (intro ballI)
        fix t n assume t: "t \<in> temp_visited s1" and n: "n \<in> set (graph_get graph node)"
        have e: "(node, n) \<in> edges graph" using n by (simp add: edges_def)
        show "(t, n) \<in> (edges graph)\<^sup>+"
        proof (cases "t = node")
          case True
          then show ?thesis using e by auto
        next
          case False
          with t have "t \<in> temp_visited s" by (simp add: s1_def)
          with anc have "(t, node) \<in> (edges graph)\<^sup>+" by blast
          with e show ?thesis by (auto intro: trancl_into_trancl)
        qed
      qed
      from "1.IH" [OF nv nt s1_def] ac inv1 anc1
      have ih: "sort_inv graph s2" "temp_visited s2 = temp_visited s1"
        "set (graph_get graph node) \<subseteq> visited s2" "visited s1 \<subseteq> visited s2"
        unfolding s2_def by blast+
      have v: "visit graph node s =
        s2 \<lparr> temp_visited := temp_visited s2 - {node}, visited := insert node (visited s2),
             result := result s2 @ [node] \<rparr>"
        using nv nt by (simp add: visit.simps [of graph node s] Let_def s1_def s2_def)
      have nr: "node \<notin> set (result s2)"
        using ih(1,2) by (auto simp: sort_inv_def s1_def)
      have ord: "ordered graph (result s2 @ [node])"
        using ih(1,3) nr by (intro ordered_snoc) (auto simp: sort_inv_def)
      have tmp: "temp_visited s2 - {node} = temp_visited s"
        using ih(2) nt by (auto simp: s1_def)
      have dis: "temp_visited s \<inter> insert node (visited s2) = {}"
        using ih(1,2) nt by (auto simp: sort_inv_def s1_def)
      show ?thesis
        unfolding v using ih ord tmp dis by (auto simp: sort_inv_def s1_def)
    qed
  qed
next
  case (2 graph s)
  show ?case by simp
next
  case (3 graph neighbor rest s)
  show ?case
  proof (intro impI)
    assume ac: "acyclic (edges graph)" and inv: "sort_inv graph s"
      and anc: "\<forall>t \<in> temp_visited s. \<forall>n \<in> set (neighbor # rest). (t, n) \<in> (edges graph)\<^sup>+"
    define s1 where "s1 = visit graph neighbor s"
    from "3.IH"(1) ac inv anc
    have a: "sort_inv graph s1" "temp_visited s1 = temp_visited s" "neighbor \<in> visited s1"
      "visited s \<subseteq> visited s1"
      unfolding s1_def by auto
    from "3.IH"(2) ac a(1,2) anc
    have b: "sort_inv graph (visit_neighbors graph rest s1)"
      "temp_visited (visit_neighbors graph rest s1) = temp_visited s1"
      "set rest \<subseteq> visited (visit_neighbors graph rest s1)"
      "visited s1 \<subseteq> visited (visit_neighbors graph rest s1)"
      unfolding s1_def by auto
    show "sort_inv graph (visit_neighbors graph (neighbor # rest) s) \<and>
       temp_visited (visit_neighbors graph (neighbor # rest) s) = temp_visited s \<and>
       set (neighbor # rest) \<subseteq> visited (visit_neighbors graph (neighbor # rest) s) \<and>
       visited s \<subseteq> visited (visit_neighbors graph (neighbor # rest) s)"
      using a b by (auto simp: s1_def)
  qed
qed


lemma graph_get_subset:
  "set (graph_get g a) \<subseteq> \<Union> (set ` snd ` set g)"
proof (cases "map_of g a")
  case None
  then show ?thesis by (simp add: graph_get_def)
next
  case (Some ns)
  then have "(a, ns) \<in> set g" by (rule map_of_SomeD)
  then show ?thesis using Some by (force simp: graph_get_def)
qed

lemma visit_bound:
  "visited (visit g node s) \<subseteq> visited s \<union> insert node (\<Union> (set ` snd ` set g))"
  "visited (visit_neighbors g nodes s) \<subseteq> visited s \<union> set nodes \<union> \<Union> (set ` snd ` set g)"
proof (induction g node s and g nodes s rule: visit_visit_neighbors.induct)
  case (1 graph node s)
  show ?case
  proof (cases "node \<in> visited s \<or> node \<in> temp_visited s")
    case True
    then show ?thesis by (auto simp: visit.simps [of graph node s])
  next
    case False
    then have nv: "node \<notin> visited s" and nt: "node \<notin> temp_visited s" by auto
    define s1 where "s1 = s \<lparr> temp_visited := insert node (temp_visited s) \<rparr>"
    from "1.IH" [OF nv nt s1_def]
    have "visited (visit_neighbors graph (graph_get graph node) s1)
       \<subseteq> visited s1 \<union> set (graph_get graph node) \<union> \<Union> (set ` snd ` set graph)" .
    moreover have "visited s1 = visited s" by (simp add: s1_def)
    ultimately have "visited (visit_neighbors graph (graph_get graph node) s1)
       \<subseteq> visited s \<union> \<Union> (set ` snd ` set graph)"
      using graph_get_subset [of graph node] by auto
    then show ?thesis
      using nv nt by (auto simp: visit.simps [of graph node s] Let_def s1_def)
  qed
next
  case (2 graph s)
  show ?case by simp
next
  case (3 graph neighbor rest s)
  then show ?case by auto
qed

lemma sort_loop_correct:
  assumes "acyclic (edges g)"
  shows "sort_inv g s \<Longrightarrow> temp_visited s = {} \<Longrightarrow>
    sort_inv g (fold (\<lambda>node s. if node \<notin> visited s then visit g node s else s) ns s) \<and>
    temp_visited (fold (\<lambda>node s. if node \<notin> visited s then visit g node s else s) ns s) = {} \<and>
    visited s \<union> set ns \<subseteq>
      visited (fold (\<lambda>node s. if node \<notin> visited s then visit g node s else s) ns s) \<and>
    visited (fold (\<lambda>node s. if node \<notin> visited s then visit g node s else s) ns s)
      \<subseteq> visited s \<union> set ns \<union> \<Union> (set ` snd ` set g)"
proof (induction ns arbitrary: s)
  case Nil
  then show ?case by simp
next
  case (Cons n ns)
  define s1 where "s1 = (if n \<notin> visited s then visit g n s else s)"
  have v: "sort_inv g (visit g n s) \<and> temp_visited (visit g n s) = temp_visited s \<and>
     n \<in> visited (visit g n s) \<and> visited s \<subseteq> visited (visit g n s)"
    using visit_correct(1) [of g s n] assms Cons.prems by simp
  have a: "sort_inv g s1" "temp_visited s1 = {}" "n \<in> visited s1" "visited s \<subseteq> visited s1"
    using v Cons.prems by (auto simp: s1_def)
  have b: "visited s1 \<subseteq> visited s \<union> insert n (\<Union> (set ` snd ` set g))"
    using visit_bound(1) [of g n s] by (auto simp: s1_def)
  from Cons.IH [OF a(1,2)] a b show ?case
    unfolding fold_simps s1_def [symmetric] by auto
qed

lemma topological_sort_graph:
  assumes "acyclic (edges g)"
  shows "ordered g (topological_sort g)"
    and "fst ` set g \<subseteq> set (topological_sort g)"
    and "set (topological_sort g) \<subseteq> fst ` set g \<union> \<Union> (set ` snd ` set g)"
proof -
  let ?s0 = "\<lparr> result = [], visited = {}, temp_visited = {} \<rparr>"
  have i: "sort_inv g ?s0" by (simp add: sort_inv_def ordered_def)
  from sort_loop_correct [OF assms i, of "map fst g"]
  show "ordered g (topological_sort g)"
    and "fst ` set g \<subseteq> set (topological_sort g)"
    and "set (topological_sort g) \<subseteq> fst ` set g \<union> \<Union> (set ` snd ` set g)"
    unfolding topological_sort_def sort_inv_def by auto
qed

lemma precedes_decomp: "xs = l1 @ x # l2 @ y # l3 \<Longrightarrow> precedes x y xs"
proof (induction l1 arbitrary: xs)
  case Nil
  then show ?case by (simp add: precedes_def)
next
  case (Cons a l1)
  then show ?case by (cases "a = x") (auto simp: precedes_def)
qed

lemma ordered_precedes:
  assumes "ordered g res" "a \<in> set res" "b \<in> set (graph_get g a)"
  shows "precedes b a res"
proof -
  from assms(2) obtain xs ys where r: "res = xs @ a # ys" by (auto simp: in_set_conv_decomp)
  with assms(1,3) have "b \<in> set xs" by (auto simp: ordered_def)
  then obtain l1 l2 where "xs = l1 @ b # l2" by (auto simp: in_set_conv_decomp)
  with r have "res = l1 @ b # l2 @ a # ys" by simp
  then show ?thesis by (rule precedes_decomp)
qed

section \<open>Facts about the dependency graph\<close>

lemma dom_map_of_keys: "dom (map_of g) = fst ` set g"
  by (rule dom_map_of_conv_image_fst)

lemma graph_get_update:
  "graph_get (AList.update k v g) a = (if a = k then v else graph_get g a)"
  by (simp add: graph_get_def update_conv')

lemma keys_update: "fst ` set (AList.update k v g) = insert k (fst ` set g)"
  by (simp add: dom_update)

lemma add_dependency_keys:
  "n \<in> fst ` set g \<Longrightarrow> fst ` set (add_dependency n fk g) = fst ` set g"
  by (auto simp: add_dependency_def keys_update)

lemma add_dependency_get:
  "set (graph_get (add_dependency n fk g) a) =
     set (graph_get g a) \<union>
     (if a = n \<and> fk_reference_table fk \<in> fst ` set g then {fk_reference_table fk} else {})"
  by (auto simp: add_dependency_def graph_get_update map_of_eq_None_iff)

lemma fold_add_dependency:
  "n \<in> fst ` set g \<Longrightarrow>
   fst ` set (fold (add_dependency n) fks g) = fst ` set g \<and>
   (\<forall>a. set (graph_get (fold (add_dependency n) fks g) a) =
     set (graph_get g a) \<union>
     (if a = n then {fk_reference_table fk | fk. fk \<in> set fks \<and> fk_reference_table fk \<in> fst ` set g}
      else {}))"
proof (induction fks arbitrary: g)
  case Nil
  then show ?case by simp
next
  case (Cons fk fks)
  have k: "fst ` set (add_dependency n fk g) = fst ` set g"
    using Cons.prems by (rule add_dependency_keys)
  then have n: "n \<in> fst ` set (add_dependency n fk g)" using Cons.prems by simp
  from Cons.IH [OF n] show ?case
    unfolding fold_simps k by (auto simp: add_dependency_get)
qed

lemma add_dependencies_spec:
  assumes "t_name t \<in> fst ` set g"
  shows "fst ` set (add_dependencies (rid, t) g) = fst ` set g \<and>
   (\<forall>a. set (graph_get (add_dependencies (rid, t) g) a) =
     set (graph_get g a) \<union>
     (if a = t_name t
      then {fk_reference_table fk | fk. fk \<in> set (or_empty (t_foreign_keys t)) \<and>
              fk_reference_table fk \<in> fst ` set g}
      else {}))"
proof (cases "truthy_list (t_foreign_keys t)")
  case True
  then show ?thesis
    using fold_add_dependency [OF assms, of "or_empty (t_foreign_keys t)"]
    by (simp add: add_dependencies_def)
next
  case False
  then have "or_empty (t_foreign_keys t) = []" by (cases "t_foreign_keys t") auto
  then show ?thesis using False by (simp add: add_dependencies_def)
qed

lemma fold_add_dependencies:
  "t_name ` snd ` set ts \<subseteq> fst ` set g \<Longrightarrow>
   fst ` set (fold add_dependencies ts g) = fst ` set g \<and>
   (\<forall>a. set (graph_get (fold add_dependencies ts g) a) =
     set (graph_get g a) \<union>
     {fk_reference_table fk | rid t fk. (rid, t) \<in> set ts \<and> t_name t = a \<and>
        fk \<in> set (or_empty (t_foreign_keys t)) \<and> fk_reference_table fk \<in> fst ` set g})"
proof (induction ts arbitrary: g)
  case Nil
  then show ?case by simp
next
  case (Cons p ts)
  obtain rid t where p: "p = (rid, t)" by (cases p)
  define g' where "g' = add_dependencies (rid, t) g"
  define K where "K = fst ` set g"
  from Cons.prems p have tn: "t_name t \<in> fst ` set g" by auto
  note st = add_dependencies_spec [OF tn, of rid, folded g'_def]
  from st have k: "fst ` set g' = K" by (simp add: K_def)
  from Cons.prems k have sub: "t_name ` snd ` set ts \<subseteq> fst ` set g'"
    by (auto simp: K_def)
  note ih = Cons.IH [OF sub, unfolded k]
  have f: "fold add_dependencies (p # ts) g = fold add_dependencies ts g'"
    by (simp add: p g'_def)
  show ?case
    unfolding f K_def [symmetric]
  proof (intro conjI allI)
    show "fst ` set (fold add_dependencies ts g') = K" using ih by blast
  next
    fix a
    define A where "A = {fk_reference_table fk | rid t fk. (rid, t) \<in> set ts \<and> t_name t = a \<and>
        fk \<in> set (or_empty (t_foreign_keys t)) \<and> fk_reference_table fk \<in> K}"
    define B where "B = (if a = t_name t
      then {fk_reference_table fk | fk. fk \<in> set (or_empty (t_foreign_keys t)) \<and>
              fk_reference_table fk \<in> K}
      else {})"
    have 1: "set (graph_get (fold add_dependencies ts g') a) = set (graph_get g' a) \<union> A"
      using ih unfolding A_def by blast
    have 2: "set (graph_get g' a) = set (graph_get g a) \<union> B"
      using st unfolding B_def K_def by blast
    have 3: "{fk_reference_table fk | rid t fk. (rid, t) \<in> set (p # ts) \<and> t_name t = a \<and>
        fk \<in> set (or_empty (t_foreign_keys t)) \<and> fk_reference_table fk \<in> K} = B \<union> A"
      unfolding A_def B_def p by (cases "a = t_name t") auto
    show "set (graph_get (fold add_dependencies ts g') a) =
       set (graph_get g a) \<union>
       {fk_reference_table fk | rid t fk. (rid, t) \<in> set (p # ts) \<and> t_name t = a \<and>
        fk \<in> set (or_empty (t_foreign_keys t)) \<and> fk_reference_table fk \<in> K}"
      unfolding 1 2 3 by (simp add: Un_assoc)
  qed
qed

lemma initial_graph:
  "fst ` set (fold (\<lambda>(resource_id, table) graph. AList.update (t_name table) [] graph) ts g) =
     fst ` set g \<union> t_name ` snd ` set ts \<and>
   ((\<forall>a. graph_get g a = []) \<longrightarrow>
    (\<forall>a. graph_get (fold (\<lambda>(resource_id, table) graph. AList.update (t_name table) [] graph) ts g) a = []))"
proof (induction ts arbitrary: g)
  case Nil
  then show ?case by simp
next
  case (Cons p ts)
  obtain rid t where p: "p = (rid, t)" by (cases p)
  show ?case
    unfolding p fold_simps using Cons.IH [of "AList.update (t_name t) [] g"]
    by (auto simp: keys_update graph_get_update)
qed

lemma second_loop_noop:
  "t_name ` snd ` set ts \<subseteq> fst ` set g \<Longrightarrow>
   fold (\<lambda>(resource_id, table) graph.
           if map_of graph (t_name table) = None
           then AList.update (t_name table) [] graph else graph) ts g = g"
proof (induction ts)
  case Nil
  then show ?case by simp
next
  case (Cons p ts)
  obtain rid t where p: "p = (rid, t)" by (cases p)
  from Cons.prems p have "t_name t \<in> fst ` set g" by auto
  then have ne: "map_of g (t_name t) \<noteq> None" by (simp add: map_of_eq_None_iff)
  from Cons.prems have "t_name ` snd ` set ts \<subseteq> fst ` set g" by auto
  from Cons.IH [OF this] ne show ?case by (auto simp: p)
qed

lemma build_dependency_graph_spec:
  "fst ` set (build_dependency_graph tables) = t_name ` snd ` set tables"
  "edges (build_dependency_graph tables) = fk_edges tables"
proof -
  define g0 where "g0 = fold (\<lambda>(resource_id, table) graph.
      AList.update (t_name table) [] graph) tables ([] :: graph)"
  have k0: "fst ` set g0 = t_name ` snd ` set tables" and e0: "\<forall>a. graph_get g0 a = []"
    using initial_graph [of tables "[]"] by (auto simp: g0_def graph_get_def)
  have g1: "fold (\<lambda>(resource_id, table) graph.
           if map_of graph (t_name table) = None
           then AList.update (t_name table) [] graph else graph) tables g0 = g0"
    by (rule second_loop_noop) (simp add: k0)
  have b: "build_dependency_graph tables = fold add_dependencies tables g0"
    by (simp add: build_dependency_graph_def Let_def g0_def [symmetric] g1)
  have sub: "t_name ` snd ` set tables \<subseteq> fst ` set g0" by (simp add: k0)
  note f = fold_add_dependencies [OF sub]
  show "fst ` set (build_dependency_graph tables) = t_name ` snd ` set tables"
    using f k0 by (simp add: b)
  have "\<And>a. set (graph_get (build_dependency_graph tables) a) =
     {fk_reference_table fk | rid t fk. (rid, t) \<in> set tables \<and> t_name t = a \<and>
        fk \<in> set (or_empty (t_foreign_keys t)) \<and>
        fk_reference_table fk \<in> t_name ` snd ` set tables}"
    using f e0 k0 by (simp add: b)
  then have "\<And>a b. (a, b) \<in> edges (build_dependency_graph tables) \<longleftrightarrow>
     (\<exists>rid t fk. b = fk_reference_table fk \<and> (rid, t) \<in> set tables \<and> t_name t = a \<and>
        fk \<in> set (or_empty (t_foreign_keys t)) \<and>
        fk_reference_table fk \<in> t_name ` snd ` set tables)"
    by (simp add: edges_def)
  moreover have "\<And>a b. (a, b) \<in> fk_edges tables \<longleftrightarrow>
     (\<exists>rid t fk. b = fk_reference_table fk \<and> (rid, t) \<in> set tables \<and> t_name t = a \<and>
        fk \<in> set (or_empty (t_foreign_keys t)) \<and>
        fk_reference_table fk \<in> t_name ` snd ` set tables)"
    unfolding fk_edges_def by blast
  ultimately show "edges (build_dependency_graph tables) = fk_edges tables"
    by (intro set_eqI) (simp add: split_paired_all)
qed

lemma fold_keeps_distinct:
  assumes "\<And>x g. distinct (map fst g) \<Longrightarrow> distinct (map fst (f x g))"
  shows "distinct (map fst g) \<Longrightarrow> distinct (map fst (fold f xs g))"
  by (induction xs arbitrary: g) (auto intro: assms)

lemma add_dependencies_distinct:
  "distinct (map fst g) \<Longrightarrow> distinct (map fst (add_dependencies p g))"
proof -
  assume d: "distinct (map fst g)"
  obtain rid t where p: "p = (rid, t)" by (cases p)
  have "distinct (map fst (fold (add_dependency (t_name t)) fks g))" for fks
    using d by (rule fold_keeps_distinct [rotated]) (simp add: add_dependency_def distinct_update)
  then show ?thesis using d by (simp add: p add_dependencies_def)
qed

lemma build_dependency_graph_distinct:
  "distinct (map fst (build_dependency_graph tables))"
proof -
  define g0 where "g0 = fold (\<lambda>(resource_id, table) graph.
      AList.update (t_name table) [] graph) tables ([] :: graph)"
  define g1 where "g1 = fold (\<lambda>(resource_id, table) graph.
           if map_of graph (t_name table) = None
           then AList.update (t_name table) [] graph else graph) tables g0"
  have s0: "distinct (map fst ((\<lambda>(resource_id, table) graph.
      AList.update (t_name table) [] graph) x g))" if "distinct (map fst g)"
    for x :: "string \<times> 'a Table" and g :: graph
    using that by (cases x) (simp add: distinct_update)
  have s1: "distinct (map fst ((\<lambda>(resource_id, table) graph.
           if map_of graph (t_name table) = None
           then AList.update (t_name table) [] graph else graph) x g))" if "distinct (map fst g)"
    for x :: "string \<times> 'a Table" and g :: graph
    using that by (cases x) (simp add: distinct_update)
  have d0: "distinct (map fst g0)"
  proof -
    have e: "distinct (map fst ([] :: graph))" by simp
    from s0 e show ?thesis unfolding g0_def by (rule fold_keeps_distinct)
  qed
  have d1: "distinct (map fst g1)"
    unfolding g1_def using s1 d0 by (rule fold_keeps_distinct)
  have "distinct (map fst (fold add_dependencies tables g1))"
    using add_dependencies_distinct d1 by (rule fold_keeps_distinct)
  then show ?thesis
    by (simp add: build_dependency_graph_def Let_def g0_def g1_def)
qed

lemma build_dependency_graph_closed:
  "\<Union> (set ` snd ` set (build_dependency_graph tables)) \<subseteq> t_name ` snd ` set tables"
proof
  fix b assume "b \<in> \<Union> (set ` snd ` set (build_dependency_graph tables))"
  then obtain a ns where m: "(a, ns) \<in> set (build_dependency_graph tables)" and b: "b \<in> set ns"
    by auto
  have d: "distinct (map fst (build_dependency_graph tables))"
    by (rule build_dependency_graph_distinct)
  from m d have "map_of (build_dependency_graph tables) a = Some ns" by simp
  with b have "(a, b) \<in> edges (build_dependency_graph tables)"
    by (simp add: edges_def graph_get_def)
  then show "b \<in> t_name ` snd ` set tables"
    by (auto simp: build_dependency_graph_spec(2) fk_edges_def)
qed

section \<open>The example evaluated\<close>

lemmas blog_defs = blog_def users_def posts_def example_fk_def example_column_def example_table_def

lemma blog_graph:
  "build_dependency_graph blog = [(''posts'', [''users'']), (''users'', [])]"
  by (simp add: build_dependency_graph_def blog_defs add_dependencies_def add_dependency_def
      graph_get_def)

lemma blog_order:
  "topological_sort (build_dependency_graph blog) = [''users'', ''posts'']"
  by (simp add: blog_graph topological_sort_def visit.simps graph_get_def Let_def)

lemma blog_edges: "fk_edges blog = {(''posts'', ''users'')}"
proof (rule equalityI)
  show "fk_edges blog \<subseteq> {(''posts'', ''users'')}"
    by (auto simp: fk_edges_def blog_defs)
next
  have "(''posts'', ''users'') \<in> fk_edges blog"
    unfolding fk_edges_def
    apply (rule CollectI)
    apply (rule exI [of _ "''posts_table''"])
    apply (rule exI [of _ posts])
    apply (rule exI [of _ "example_fk ''user_id'' ''users'' ''CASCADE''"])
    apply (simp add: blog_defs)
    done
  then show "{(''posts'', ''users'')} \<subseteq> fk_edges blog" by simp
qed

section \<open>The order on any graph\<close>

lemma visit_distinct:
  "visit_inv s \<longrightarrow>
     visit_inv (visit g node s) \<and> temp_visited (visit g node s) = temp_visited s \<and>
     visited s \<subseteq> visited (visit g node s) \<and>
     (node \<notin> temp_visited s \<longrightarrow> node \<in> visited (visit g node s))"
  "visit_inv s \<longrightarrow>
     visit_inv (visit_neighbors g nodes s) \<and>
     temp_visited (visit_neighbors g nodes s) = temp_visited s \<and>
     visited s \<subseteq> visited (visit_neighbors g nodes s)"
proof (induction g node s and g nodes s rule: visit_visit_neighbors.induct)
  case (1 graph node s)
  show ?case
  proof (intro impI)
    assume inv: "visit_inv s"
    show "visit_inv (visit graph node s) \<and> temp_visited (visit graph node s) = temp_visited s \<and>
      visited s \<subseteq> visited (visit graph node s) \<and>
      (node \<notin> temp_visited s \<longrightarrow> node \<in> visited (visit graph node s))"
    proof (cases "node \<in> visited s \<or> node \<in> temp_visited s")
      case True
      then show ?thesis using inv by (auto simp: visit.simps [of graph node s])
    next
      case False
      then have nv: "node \<notin> visited s" and nt: "node \<notin> temp_visited s" by auto
      define s1 where "s1 = s \<lparr> temp_visited := insert node (temp_visited s) \<rparr>"
      define s2 where "s2 = visit_neighbors graph (graph_get graph node) s1"
      have inv1: "visit_inv s1" using inv nv by (auto simp: visit_inv_def s1_def)
      from "1.IH" [OF nv nt s1_def] inv1
      have ih: "visit_inv s2" "temp_visited s2 = temp_visited s1" "visited s1 \<subseteq> visited s2"
        unfolding s2_def by blast+
      have v: "visit graph node s =
        s2 \<lparr> temp_visited := temp_visited s2 - {node}, visited := insert node (visited s2),
             result := result s2 @ [node] \<rparr>"
        using nv nt by (simp add: visit.simps [of graph node s] Let_def s1_def s2_def)
      have nr: "node \<notin> set (result s2)"
        using ih(1,2) by (auto simp: visit_inv_def s1_def)
      show ?thesis
        unfolding v using ih nr nt by (auto simp: visit_inv_def s1_def)
    qed
  qed
next
  case (2 graph s)
  show ?case by simp
next
  case (3 graph neighbor rest s)
  show ?case
  proof (intro impI)
    assume inv: "visit_inv s"
    define s1 where "s1 = visit graph neighbor s"
    from "3.IH"(1) inv
    have a: "visit_inv s1" "temp_visited s1 = temp_visited s" "visited s \<subseteq> visited s1"
      unfolding s1_def by auto
    from "3.IH"(2) a(1)
    have b: "visit_inv (visit_neighbors graph rest s1)"
      "temp_visited (visit_neighbors graph rest s1) = temp_visited s1"
      "visited s1 \<subseteq> visited (visit_neighbors graph rest s1)"
      unfolding s1_def by auto
    show "visit_inv (visit_neighbors graph (neighbor # rest) s) \<and>
       temp_visited (visit_neighbors graph (neighbor # rest) s) = temp_visited s \<and>
       visited s \<subseteq> visited (visit_neighbors graph (neighbor # rest) s)"
      using a b by (auto simp: s1_def)
  qed
qed

lemma sort_loop_distinct:
  "visit_inv s \<Longrightarrow> temp_visited s = {} \<Longrightarrow>
    visit_inv (fold (\<lambda>node s. if node \<notin> visited s then visit g node s else s) ns s) \<and>
    temp_visited (fold (\<lambda>node s. if node \<notin> visited s then visit g node s else s) ns s) = {} \<and>
    visited s \<union> set ns \<subseteq>
      visited (fold (\<lambda>node s. if node \<notin> visited s then visit g node s else s) ns s) \<and>
    visited (fold (\<lambda>node s. if node \<notin> visited s then visit g node s else s) ns s)
      \<subseteq> visited s \<union> set ns \<union> \<Union> (set ` snd ` set g)"
proof (induction ns arbitrary: s)
  case Nil
  then show ?case by simp
next
  case (Cons n ns)
  define s1 where "s1 = (if n \<notin> visited s then visit g n s else s)"
  have v: "visit_inv (visit g n s) \<and> temp_visited (visit g n s) = temp_visited s \<and>
     visited s \<subseteq> visited (visit g n s) \<and> n \<in> visited (visit g n s)"
    using visit_distinct(1) [of s g n] Cons.prems by simp
  have a: "visit_inv s1" "temp_visited s1 = {}" "n \<in> visited s1" "visited s \<subseteq> visited s1"
    using v Cons.prems by (auto simp: s1_def)
  have b: "visited s1 \<subseteq> visited s \<union> insert n (\<Union> (set ` snd ` set g))"
    using visit_bound(1) [of g n s] by (auto simp: s1_def)
  from Cons.IH [OF a(1,2)] a b show ?case
    unfolding fold_simps s1_def [symmetric] by auto
qed

lemma topological_sort_names:
  "distinct (topological_sort (build_dependency_graph tables))"
  "set (topological_sort (build_dependency_graph tables)) = t_name ` snd ` set tables"
proof -
  define g where "g = build_dependency_graph tables"
  let ?s0 = "\<lparr> result = [], visited = {}, temp_visited = {} \<rparr>"
  have i: "visit_inv ?s0" by (simp add: visit_inv_def)
  from sort_loop_distinct [OF i, of g "map fst g"]
  have d: "distinct (topological_sort g)"
    and lo: "fst ` set g \<subseteq> set (topological_sort g)"
    and up: "set (topological_sort g) \<subseteq> fst ` set g \<union> \<Union> (set ` snd ` set g)"
    unfolding topological_sort_def visit_inv_def by auto
  have keys: "fst ` set g = t_name ` snd ` set tables"
    by (simp add: g_def build_dependency_graph_spec(1))
  have closed: "\<Union> (set ` snd ` set g) \<subseteq> t_name ` snd ` set tables"
    unfolding g_def by (rule build_dependency_graph_closed)
  have u: "fst ` set g \<union> \<Union> (set ` snd ` set g) \<subseteq> t_name ` snd ` set tables"
    using keys closed by simp
  show "distinct (topological_sort (build_dependency_graph tables))"
    using d by (simp add: g_def)
  show "set (topological_sort (build_dependency_graph tables)) = t_name ` snd ` set tables"
  proof (rule equalityI)
    show "set (topological_sort (build_dependency_graph tables)) \<subseteq> t_name ` snd ` set tables"
      using up u unfolding g_def by (rule subset_trans)
    show "t_name ` snd ` set tables \<subseteq> set (topological_sort (build_dependency_graph tables))"
      using lo keys by (simp add: g_def)
  qed
qed

section \<open>Facts about the planner\<close>

lemma from_dict_not_empty:
  "from_dict b rid d = Inr t \<Longrightarrow> \<not> raw_table_empty b d"
  by (auto simp: from_dict_def raw_table_empty_def bind_err_Inr_iff getitem_Inr_iff)

lemma from_dict_name:
  "from_dict b rid d = Inr t \<Longrightarrow> rt_name d = Some (t_name t)"
  by (auto simp: from_dict_def bind_err_Inr_iff getitem_Inr_iff)

lemma state_ok_lookup:
  "state_ok b state \<Longrightarrow> map_of state rid = Some d \<Longrightarrow> \<exists>t. from_dict b rid d = Inr t"
proof -
  assume ok: "state_ok b state" and m: "map_of state rid = Some d"
  from m have "(rid, d) \<in> set state" by (rule map_of_SomeD)
  with ok have "parses b (rid, d)" by (auto simp: state_ok_def list_all_iff)
  then show ?thesis by (auto simp: parses_def split: sum.splits)
qed

lemma plan_table_result:
  assumes "state_ok b state"
  shows "\<exists>changes'. plan_table b state (rid, t) changes = Inr changes' \<and>
     (\<forall>r. map_of changes' r =
        (if r = rid \<and> expected_change b [(rid, t)] state rid \<noteq> None
         then expected_change b [(rid, t)] state rid else map_of changes r)) \<and>
     (distinct (map fst changes) \<longrightarrow> distinct (map fst changes'))"
proof (cases "map_of state rid")
  case None
  then show ?thesis
    by (simp add: plan_table_def get_resource_def expected_change_def update_conv' distinct_update)
next
  case (Some d)
  from state_ok_lookup [OF assms Some] obtain old where old: "from_dict b rid d = Inr old" by blast
  then have ne: "\<not> raw_table_empty b d" by (rule from_dict_not_empty)
  show ?thesis
    using Some old ne
    by (simp add: plan_table_def get_resource_def expected_change_def update_conv' distinct_update
        bind_err_def Let_def)
qed

lemma plan_first_loop:
  assumes "state_ok b state"
  shows "distinct (map fst ts) \<Longrightarrow>
     \<exists>changes'. for_each (plan_table b state) ts changes = Inr changes' \<and>
       (\<forall>r. map_of changes' r =
          (if map_of ts r \<noteq> None \<and> expected_change b ts state r \<noteq> None
           then expected_change b ts state r else map_of changes r)) \<and>
       (distinct (map fst changes) \<longrightarrow> distinct (map fst changes'))"
proof (induction ts arbitrary: changes)
  case Nil
  then show ?case by simp
next
  case (Cons p ts)
  obtain rid t where p: "p = (rid, t)" by (cases p)
  from Cons.prems p have d: "distinct (map fst ts)" and fresh: "map_of ts rid = None"
    by (auto simp: map_of_eq_None_iff)
  from plan_table_result [OF assms, of rid t changes]
  obtain c1 where c1: "plan_table b state (rid, t) changes = Inr c1"
    and m1: "\<And>r. map_of c1 r =
        (if r = rid \<and> expected_change b [(rid, t)] state rid \<noteq> None
         then expected_change b [(rid, t)] state rid else map_of changes r)"
    and d1: "distinct (map fst changes) \<longrightarrow> distinct (map fst c1)"
    by blast
  from Cons.IH [OF d, of c1]
  obtain c2 where c2: "for_each (plan_table b state) ts c1 = Inr c2"
    and m2: "\<And>r. map_of c2 r =
          (if map_of ts r \<noteq> None \<and> expected_change b ts state r \<noteq> None
           then expected_change b ts state r else map_of c1 r)"
    and d2: "distinct (map fst c1) \<longrightarrow> distinct (map fst c2)"
    by blast
  have run: "for_each (plan_table b state) (p # ts) changes = Inr c2"
    by (simp add: p c1 c2 bind_err_def)
  have e1: "expected_change b ((rid, t) # ts) state rid = expected_change b [(rid, t)] state rid"
    by (simp add: expected_change_def)
  have e2: "r \<noteq> rid \<Longrightarrow> expected_change b ((rid, t) # ts) state r = expected_change b ts state r
      \<and> map_of ((rid, t) # ts) r = map_of ts r" for r
    by (simp add: expected_change_def)
  have "map_of c2 r =
          (if map_of (p # ts) r \<noteq> None \<and> expected_change b (p # ts) state r \<noteq> None
           then expected_change b (p # ts) state r else map_of changes r)" for r
  proof (cases "r = rid")
    case True
    then show ?thesis using m2 [of r] m1 [of r] fresh e1 by (simp add: p)
  next
    case False
    then show ?thesis using m2 [of r] m1 [of r] e2 [OF False] by (simp add: p)
  qed
  with run d1 d2 show ?case by blast
qed

lemma plan_second_loop:
  assumes "state_ok b state"
  shows "map_of (fold (plan_removed b tables state) rids changes) r =
     (if r \<in> set rids \<and> map_of tables r = None \<and> map_of state r \<noteq> None
      then expected_change b tables state r else map_of changes r) \<and>
     (distinct (map fst changes) \<longrightarrow>
        distinct (map fst (fold (plan_removed b tables state) rids changes)))"
proof (induction rids arbitrary: changes)
  case Nil
  then show ?case by simp
next
  case (Cons x rids)
  define c1 where "c1 = plan_removed b tables state x changes"
  have m1: "map_of c1 r =
     (if r = x \<and> map_of tables r = None \<and> map_of state r \<noteq> None
      then expected_change b tables state r else map_of changes r)"
  proof (cases "map_of state x")
    case None
    then show ?thesis by (auto simp: c1_def plan_removed_def get_resource_def)
  next
    case (Some d)
    from state_ok_lookup [OF assms Some] obtain old where old: "from_dict b x d = Inr old" by blast
    show ?thesis
      using Some old from_dict_not_empty [OF old] from_dict_name [OF old]
      by (auto simp: c1_def plan_removed_def get_resource_def expected_change_def update_conv')
  qed
  have d1: "distinct (map fst changes) \<longrightarrow> distinct (map fst c1)"
    by (auto simp: c1_def plan_removed_def distinct_update split: option.splits)
  from Cons.IH [of c1] m1 d1 show ?case
    unfolding fold_simps c1_def [symmetric] by auto
qed

text \<open>Both loops together: the plan holds the expected change of every resource id.\<close>

lemma plan_expected:
  assumes "distinct (map fst tables)" and "state_ok b state"
  shows "\<exists>changes. plan b tables state = Inr changes \<and> distinct (map fst changes) \<and>
           (\<forall>resource_id. map_of changes resource_id = expected_change b tables state resource_id)"
proof -
  from plan_first_loop [OF assms(2,1), of "[]"]
  obtain c1 where c1: "for_each (plan_table b state) tables [] = Inr c1"
    and m1: "\<And>r. map_of c1 r =
          (if map_of tables r \<noteq> None \<and> expected_change b tables state r \<noteq> None
           then expected_change b tables state r else None)"
    and d1: "distinct (map fst c1)"
    by auto
  define c2 where "c2 = fold (plan_removed b tables state) (map fst state) c1"
  have p: "plan b tables state = Inr c2"
    by (simp add: plan_def c1 bind_err_def c2_def)
  have d2: "distinct (map fst c2)"
    using plan_second_loop [OF assms(2), of tables "map fst state" c1] d1 by (simp add: c2_def)
  have "map_of c2 r = expected_change b tables state r" for r
  proof -
    have a: "map_of c2 r =
     (if r \<in> fst ` set state \<and> map_of tables r = None \<and> map_of state r \<noteq> None
      then expected_change b tables state r else map_of c1 r)"
      using plan_second_loop [OF assms(2), of tables "map fst state" c1 r] by (simp add: c2_def)
    show ?thesis
    proof (cases "map_of tables r")
      case None
      show ?thesis
      proof (cases "map_of state r")
        case n: None
        with None a m1 [of r] show ?thesis by (simp add: expected_change_def)
      next
        case (Some d)
        then have "r \<in> fst ` set state" by (metis map_of_eq_None_iff option.distinct(1))
        with None Some a show ?thesis by simp
      qed
    next
      case (Some t)
      with a m1 [of r] show ?thesis by auto
    qed
  qed
  with p d2 show ?thesis by blast
qed

section \<open>Facts about \<^verbatim>\<open>to_dict\<close> and \<^verbatim>\<open>from_dict\<close>\<close>


lemma mysql_roundtrip: "conn_roundtrip mysql"
  by (simp add: conn_roundtrip_def mysql_def bind_err_def)









section \<open>Facts about \<^verbatim>\<open>apply\<close>\<close>

lemma group_fold:
  "fold group_change xs (c0, u0, d0) = (c, u, d) \<Longrightarrow>
   map_of c n = (case same_key xs (ActCreate, n) of
                   [] \<Rightarrow> map_of c0 n
                 | y # ys \<Rightarrow> (case last (y # ys) of
                      (rid, Create t) \<Rightarrow> Some (rid, t) | _ \<Rightarrow> None)) \<and>
   map_of u n = (case same_key xs (ActUpdate, n) of
                   [] \<Rightarrow> map_of u0 n
                 | y # ys \<Rightarrow> (case last (y # ys) of
                      (rid, Update t tc) \<Rightarrow> Some (rid, t, tc) | _ \<Rightarrow> None)) \<and>
   map_of d n = (case same_key xs (ActDelete, n) of
                   [] \<Rightarrow> map_of d0 n
                 | y # ys \<Rightarrow> (case last (y # ys) of
                      (rid, Delete m) \<Rightarrow> Some rid | _ \<Rightarrow> None))"
proof (induction xs arbitrary: c0 u0 d0)
  case Nil
  then show ?case by (simp add: same_key_def)
next
  case (Cons x xs)
  obtain rid ch where x: "x = (rid, ch)" by (cases x)
  obtain c1 u1 d1 where g: "group_change (rid, ch) (c0, u0, d0) = (c1, u1, d1)"
    by (cases "group_change (rid, ch) (c0, u0, d0)")
  from Cons.prems have f: "fold group_change xs (c1, u1, d1) = (c, u, d)" by (simp add: x g)
  note ih = Cons.IH [OF f]
  show ?case
  proof (cases ch)
    case (Create t)
    with g have e: "c1 = AList.update (t_name t) (rid, t) c0" "u1 = u0" "d1 = d0" by auto
    show ?thesis using ih
      by (auto simp: x Create e same_key_def update_conv' split: list.splits)
  next
    case (Update t tc)
    with g have e: "u1 = AList.update (t_name t) (rid, t, tc) u0" "c1 = c0" "d1 = d0" by auto
    show ?thesis using ih
      by (auto simp: x Update e same_key_def update_conv' split: list.splits)
  next
    case (Delete m)
    with g have e: "d1 = AList.update m rid d0" "c1 = c0" "u1 = u0" by auto
    show ?thesis using ih
      by (auto simp: x Delete e same_key_def update_conv' split: list.splits)
  qed
qed


lemma replay_append:
  "replay b changes (es1 @ es2) s = replay b changes es2 (replay b changes es1 s)"
  by (induction es1 arbitrary: s) simp_all

lemma extends_refl: "extends b changes [] all_ok r r"
  by (simp add: extends_def)

lemma extends_trans:
  assumes "extends b changes ids1 all_ok r r1" and "extends b changes ids2 all_ok r1 r2"
  shows "extends b changes (ids1 @ ids2) all_ok r r2"
proof -
  from assms(1) obtain es1 where 1: "events r1 = events r @ es1" "map event_id es1 = ids1"
    "mem_state r1 = replay b changes es1 (mem_state r)" "written r1 = written r"
    "all_ok \<longrightarrow> (\<forall>e \<in> set es1. ev_ok e)"
    unfolding extends_def by blast
  from assms(2) obtain es2 where 2: "events r2 = events r1 @ es2" "map event_id es2 = ids2"
    "mem_state r2 = replay b changes es2 (mem_state r1)" "written r2 = written r1"
    "all_ok \<longrightarrow> (\<forall>e \<in> set es2. ev_ok e)"
    unfolding extends_def by blast
  show ?thesis
    unfolding extends_def
    apply (rule exI [of _ "es1 @ es2"])
    using 1 2 by (auto simp: replay_append)
qed

lemma fold_extends:
  assumes "\<And>n r. extends b changes (f n) all_ok r (step n r)"
  shows "extends b changes (concat (map f ns)) all_ok r (fold step ns r)"
proof (induction ns arbitrary: r)
  case Nil
  show ?case by (simp add: extends_refl)
next
  case (Cons n ns)
  from extends_trans [OF assms [of n r] Cons.IH [of "step n r"]]
  show ?case by simp
qed

lemma for_each_extends:
  assumes "\<And>n r r'. step n r = Inr r' \<Longrightarrow> extends b changes (f n) all_ok r r'"
  shows "for_each step ns r = Inr r' \<Longrightarrow> extends b changes (concat (map f ns)) all_ok r r'"
proof (induction ns arbitrary: r)
  case Nil
  then show ?case by (simp add: extends_refl)
next
  case (Cons n ns)
  from Cons.prems obtain r1 where 1: "step n r = Inr r1" and 2: "for_each step ns r1 = Inr r'"
    by (auto simp: bind_err_Inr_iff)
  from extends_trans [OF assms [OF 1] Cons.IH [OF 2]]
  show ?case by simp
qed

lemma last_same_key:
  assumes "same_key changes k = y # ys"
  shows "last (y # ys) \<in> set changes \<and> change_key (snd (last (y # ys))) = k"
proof -
  have "last (y # ys) \<in> set (same_key changes k)" using assms by (metis last_in_set list.distinct(1))
  then show ?thesis by (auto simp: same_key_def)
qed

lemma one_event_extends:
  assumes "events r' = events r @ [e]" and "event_id e = (rid, act, n)"
    and "mem_state r' = (if ev_ok e then effect b rid ch (mem_state r) else mem_state r)"
    and "written r' = written r" and "all_ok \<longrightarrow> ev_ok e"
    and "map_of changes rid = Some ch"
  shows "extends b changes [(rid, act, n)] all_ok r r'"
  unfolding extends_def
  apply (rule exI [of _ "[e]"])
  using assms by (simp add: event_id_def)

lemma winners_single:
  "winners changes act [n] =
     (case same_key changes (act, n) of [] \<Rightarrow> [] | x # xs \<Rightarrow> [(fst (last (x # xs)), act, n)])"
  by (simp add: winners_def)

lemma winners_concat:
  "winners changes act ns = concat (map (\<lambda>n. winners changes act [n]) ns)"
  by (simp add: winners_def)

lemma update_step_extends:
  assumes grp: "group_changes changes = (ca, ua, da)" and d: "distinct (map fst changes)"
  shows "extends b changes (winners changes ActUpdate [n]) (all_succeed client db) r
           (update_step b client db ua n r)"
proof (cases "same_key changes (ActUpdate, n)")
  case Nil
  then have "map_of ua n = None"
    using group_fold [OF grp [unfolded group_changes_def], of n] by simp
  then show ?thesis by (simp add: update_step_def winners_single Nil extends_refl)
next
  case (Cons y ys)
  obtain rid ch where l: "last (y # ys) = (rid, ch)" by (cases "last (y # ys)")
  from last_same_key [OF Cons] l have mem: "(rid, ch) \<in> set changes"
    and k: "change_key ch = (ActUpdate, n)" by auto
  from k obtain t tc where ch: "ch = Update t tc" and tn: "t_name t = n" by (cases ch) auto
  have ua: "map_of ua n = Some (rid, t, tc)"
    using group_fold [OF grp [unfolded group_changes_def], of n] Cons l ch by simp
  have m: "map_of changes rid = Some ch" using mem d by simp
  have w: "winners changes ActUpdate [n] = [(rid, ActUpdate, n)]"
    by (simp add: winners_single Cons l [simplified])
  obtain co w1 where c: "client (world r) (t_conn t) = (co, w1)"
    by (cases "client (world r) (t_conn t)")
  show ?thesis
  proof (cases co)
    case None
    have na: "\<not> all_succeed client db"
    proof
      assume "all_succeed client db"
      then have "fst (client (world r) (t_conn t)) \<noteq> None" by (simp add: all_succeed_def)
      with c None show False by simp
    qed
    show ?thesis unfolding w
      by (rule one_event_extends [where e = "\<lparr> ev_resource_id = rid, ev_action = ActUpdate,
             ev_table_name = n, ev_ok = False \<rparr>" and ch = ch])
        (simp_all add: update_step_def ua c None event_id_def na m)
  next
    case (Some conn)
    obtain ok w2 where db: "db w1 (AlterTable conn t tc) = (ok, w2)"
      by (cases "db w1 (AlterTable conn t tc)")
    have a: "all_succeed client db \<longrightarrow> ok"
    proof
      assume "all_succeed client db"
      then have "fst (db w1 (AlterTable conn t tc))" by (simp add: all_succeed_def)
      with db show ok by simp
    qed
    show ?thesis unfolding w
      by (rule one_event_extends [where e = "\<lparr> ev_resource_id = rid, ev_action = ActUpdate,
             ev_table_name = n, ev_ok = ok \<rparr>" and ch = ch])
        (simp_all add: update_step_def ua c Some db event_id_def a m ch)
  qed
qed


lemma create_step_extends:
  assumes grp: "group_changes changes = (ca, ua, da)" and d: "distinct (map fst changes)"
  shows "extends b changes (winners changes ActCreate [n]) (all_succeed client db) r
           (create_step b client db ca n r)"
proof (cases "same_key changes (ActCreate, n)")
  case Nil
  then have "map_of ca n = None"
    using group_fold [OF grp [unfolded group_changes_def], of n] by simp
  then show ?thesis by (simp add: create_step_def winners_single Nil extends_refl)
next
  case (Cons y ys)
  obtain rid ch where l: "last (y # ys) = (rid, ch)" by (cases "last (y # ys)")
  from last_same_key [OF Cons] l have mem: "(rid, ch) \<in> set changes"
    and k: "change_key ch = (ActCreate, n)" by auto
  from k obtain t where ch: "ch = Create t" and tn: "t_name t = n" by (cases ch) auto
  have ca: "map_of ca n = Some (rid, t)"
    using group_fold [OF grp [unfolded group_changes_def], of n] Cons l ch by simp
  have m: "map_of changes rid = Some ch" using mem d by simp
  have w: "winners changes ActCreate [n] = [(rid, ActCreate, n)]"
    by (simp add: winners_single Cons l [simplified])
  obtain co w1 where c: "client (world r) (t_conn t) = (co, w1)"
    by (cases "client (world r) (t_conn t)")
  show ?thesis
  proof (cases co)
    case None
    have na: "\<not> all_succeed client db"
    proof
      assume "all_succeed client db"
      then have "fst (client (world r) (t_conn t)) \<noteq> None" by (simp add: all_succeed_def)
      with c None show False by simp
    qed
    show ?thesis unfolding w
      by (rule one_event_extends [where e = "\<lparr> ev_resource_id = rid, ev_action = ActCreate,
             ev_table_name = n, ev_ok = False \<rparr>" and ch = ch])
        (simp_all add: create_step_def ca c None event_id_def na m)
  next
    case (Some conn)
    obtain ok w2 where db: "db w1 (CreateTable conn t) = (ok, w2)"
      by (cases "db w1 (CreateTable conn t)")
    have a: "all_succeed client db \<longrightarrow> ok"
    proof
      assume "all_succeed client db"
      then have "fst (db w1 (CreateTable conn t))" by (simp add: all_succeed_def)
      with db show ok by simp
    qed
    show ?thesis unfolding w
      by (rule one_event_extends [where e = "\<lparr> ev_resource_id = rid, ev_action = ActCreate,
             ev_table_name = n, ev_ok = ok \<rparr>" and ch = ch])
        (simp_all add: create_step_def ca c Some db event_id_def a m ch)
  qed
qed

lemma drop_resource_extends:
  assumes run: "drop_resource b client db rid n cur r = Inr r'"
    and m: "map_of changes rid = Some (Delete k)"
  shows "extends b changes [(rid, ActDelete, n)] (all_succeed client db) r r'"
proof -
  define K :: "_ \<Rightarrow> error + _" where "K = (\<lambda>conn. case client (world r) conn of
         (None, w1) \<Rightarrow>
           Inr (r \<lparr> world := w1,
                    events := events r @ [\<lparr> ev_resource_id = rid, ev_action = ActDelete,
                       ev_table_name = n, ev_ok = False \<rparr>] \<rparr>)
       | (Some c, w1) \<Rightarrow>
           (let (ok, w2) = db w1 (DropTable c n)
            in Inr (r \<lparr> world := w2,
                        mem_state := (if ok then remove_resource (mem_state r) rid
                                      else mem_state r),
                        events := events r @ [\<lparr> ev_resource_id = rid, ev_action = ActDelete,
                           ev_table_name = n, ev_ok = ok \<rparr>] \<rparr>)))"
  from run have "bind_err (conn_from_dict b (rt_conn cur)) K = Inr r'"
    by (simp add: drop_resource_def K_def)
  then obtain conn where conn: "conn_from_dict b (rt_conn cur) = Inr conn"
    and rest: "K conn = Inr r'"
    unfolding bind_err_Inr_iff by blast
  obtain co w1 where c: "client (world r) conn = (co, w1)" by (cases "client (world r) conn")
  show ?thesis
  proof (cases co)
    case None
    have na: "\<not> all_succeed client db"
    proof
      assume "all_succeed client db"
      then have "fst (client (world r) conn) \<noteq> None" by (simp add: all_succeed_def)
      with c None show False by simp
    qed
    from rest c None have r': "r' = r \<lparr> world := w1,
        events := events r @ [\<lparr> ev_resource_id = rid, ev_action = ActDelete,
           ev_table_name = n, ev_ok = False \<rparr>] \<rparr>" by (simp add: K_def)
    show ?thesis
      by (rule one_event_extends [where e = "\<lparr> ev_resource_id = rid, ev_action = ActDelete,
             ev_table_name = n, ev_ok = False \<rparr>" and ch = "Delete k"])
        (simp_all add: r' event_id_def na m)
  next
    case (Some cn)
    obtain ok w2 where db: "db w1 (DropTable cn n) = (ok, w2)" by (cases "db w1 (DropTable cn n)")
    have a: "all_succeed client db \<longrightarrow> ok"
    proof
      assume "all_succeed client db"
      then have "fst (db w1 (DropTable cn n))" by (simp add: all_succeed_def)
      with db show ok by simp
    qed
    from rest c Some db have r': "r' = r \<lparr> world := w2,
        mem_state := (if ok then remove_resource (mem_state r) rid else mem_state r),
        events := events r @ [\<lparr> ev_resource_id = rid, ev_action = ActDelete,
           ev_table_name = n, ev_ok = ok \<rparr>] \<rparr>" by (simp add: K_def)
    show ?thesis
      by (rule one_event_extends [where e = "\<lparr> ev_resource_id = rid, ev_action = ActDelete,
             ev_table_name = n, ev_ok = ok \<rparr>" and ch = "Delete k"])
        (simp_all add: r' event_id_def a m)
  qed
qed

lemma delete_step_extends:
  assumes grp: "group_changes changes = (ca, ua, da)" and d: "distinct (map fst changes)"
    and run: "delete_step b client db da n r = Inr r'"
  shows "extends b changes (winners changes ActDelete [n]) (all_succeed client db) r r'"
proof (cases "same_key changes (ActDelete, n)")
  case Nil
  then have "map_of da n = None"
    using group_fold [OF grp [unfolded group_changes_def], of n] by simp
  with run have "r' = r" by (simp add: delete_step_def)
  then show ?thesis by (simp add: winners_single Nil extends_refl)
next
  case (Cons y ys)
  obtain rid ch where l: "last (y # ys) = (rid, ch)" by (cases "last (y # ys)")
  from last_same_key [OF Cons] l have mem: "(rid, ch) \<in> set changes"
    and k: "change_key ch = (ActDelete, n)" by auto
  from k have ch: "ch = Delete n" by (cases ch) auto
  have da: "map_of da n = Some rid"
    using group_fold [OF grp [unfolded group_changes_def], of n] Cons l ch by simp
  have m: "map_of changes rid = Some (Delete n)" using mem d ch by simp
  have w: "winners changes ActDelete [n] = [(rid, ActDelete, n)]"
    by (simp add: winners_single Cons l [simplified])
  from run da obtain cur where "drop_resource b client db rid n cur r = Inr r'"
    by (auto simp: delete_step_def split: option.splits)
  from drop_resource_extends [OF this m] show ?thesis by (simp add: w)
qed

lemma plan_keys_distinct:
  assumes "plan b tables state = Inr changes"
  shows "distinct (map fst changes)"
proof -
  have step: "plan_table b state p acc = Inr acc' \<Longrightarrow> distinct (map fst acc) \<Longrightarrow>
      distinct (map fst acc')" for p acc acc'
    by (cases p)
      (auto simp: plan_table_def bind_err_Inr_iff Let_def distinct_update
        split: option.splits if_splits)
  have loop1: "for_each (plan_table b state) ts acc = Inr acc' \<Longrightarrow> distinct (map fst acc) \<Longrightarrow>
      distinct (map fst acc')" for ts acc acc'
  proof (induction ts arbitrary: acc)
    case Nil
    then show ?case by simp
  next
    case (Cons p ts)
    from Cons.prems(1) obtain a1 where 1: "plan_table b state p acc = Inr a1"
      and 2: "for_each (plan_table b state) ts a1 = Inr acc'"
      by (auto simp: bind_err_Inr_iff)
    from Cons.IH [OF 2 step [OF 1 Cons.prems(2)]] show ?case .
  qed
  have loop2: "distinct (map fst acc) \<Longrightarrow>
      distinct (map fst (fold (plan_removed b tables state) rids acc))" for rids acc
    by (induction rids arbitrary: acc)
      (auto simp: plan_removed_def distinct_update split: option.splits)
  from assms obtain c1 where c1: "for_each (plan_table b state) tables [] = Inr c1"
    and c2: "changes = fold (plan_removed b tables state) (map fst state) c1"
    by (auto simp: plan_def bind_err_Inr_iff)
  from loop1 [OF c1] have "distinct (map fst c1)" by simp
  from loop2 [OF this] c2 show ?thesis by simp
qed

lemma apply_extends:
  assumes run: "apply_with b client delete_order db w tables state = Inr r"
    and p: "plan b tables state = Inr changes" and ne: "changes \<noteq> []"
  shows "\<exists>r3. extends b changes (schedule delete_order tables changes) (all_succeed client db)
            (start w state) r3 \<and> r = save_state r3"
proof -
  obtain ca ua da where grp: "group_changes changes = (ca, ua, da)"
    by (cases "group_changes changes")
  note d = plan_keys_distinct [OF p]
  define order where "order = topological_sort (build_dependency_graph tables)"
  define r1 where "r1 = fold (update_step b client db ua) order (start w state)"
  define r2 where "r2 = fold (create_step b client db ca) order r1"
  from run p ne grp obtain r3
    where r3: "for_each (delete_step b client db da) (delete_order order) r2 = Inr r3"
      and r: "r = save_state r3"
    by (auto simp: apply_with_def bind_err_Inr_iff Let_def order_def r1_def r2_def)
  have e1: "extends b changes (winners changes ActUpdate order) (all_succeed client db)
      (start w state) r1"
    unfolding r1_def winners_concat [of changes ActUpdate order]
    by (rule fold_extends) (rule update_step_extends [OF grp d])
  have e2: "extends b changes (winners changes ActCreate order) (all_succeed client db) r1 r2"
    unfolding r2_def winners_concat [of changes ActCreate order]
    by (rule fold_extends) (rule create_step_extends [OF grp d])
  have e3: "extends b changes (winners changes ActDelete (delete_order order))
      (all_succeed client db) r2 r3"
    unfolding winners_concat [of changes ActDelete "delete_order order"]
    using r3 by (rule for_each_extends [rotated]) (rule delete_step_extends [OF grp d])
  from extends_trans [OF extends_trans [OF e1 e2] e3]
  have "extends b changes (schedule delete_order tables changes) (all_succeed client db)
            (start w state) r3"
    by (simp add: schedule_def Let_def order_def)
  with r show ?thesis by blast
qed

section \<open>Facts about the schedule and the replayed state\<close>

lemma effect_other:
  "rid' \<noteq> rid \<Longrightarrow> map_of (effect b rid' c s) rid = map_of s rid"
  by (cases c) (simp_all add: add_resource_def remove_resource_def update_conv' delete_conv')

lemma replay_frame:
  "(\<forall>e \<in> set es. ev_resource_id e = rid \<longrightarrow> \<not> ev_ok e) \<Longrightarrow>
   map_of (replay b changes es s) rid = map_of s rid"
proof (induction es arbitrary: s)
  case Nil
  then show ?case by simp
next
  case (Cons e es)
  from Cons.prems have rest: "\<forall>e \<in> set es. ev_resource_id e = rid \<longrightarrow> \<not> ev_ok e" by simp
  show ?case
  proof (cases "ev_ok e")
    case True
    with Cons.prems have ne: "ev_resource_id e \<noteq> rid" by auto
    show ?thesis
      using Cons.IH [OF rest] True
      by (simp add: effect_other [OF ne] split: option.splits)
  next
    case False
    then show ?thesis using Cons.IH [OF rest] by simp
  qed
qed

lemma winners_mem:
  assumes "(rid, act, n) \<in> set (winners changes a ns)"
  shows "act = a \<and> n \<in> set ns \<and> (\<exists>y ys. same_key changes (a, n) = y # ys \<and> rid = fst (last (y # ys)))"
proof -
  from assms obtain m where m: "m \<in> set ns"
    and x: "(rid, act, n) \<in> set (case same_key changes (a, m) of
        [] \<Rightarrow> [] | x # xs \<Rightarrow> [(fst (last (x # xs)), a, m)])"
    unfolding winners_def by auto
  show ?thesis
  proof (cases "same_key changes (a, m)")
    case Nil
    with x show ?thesis by simp
  next
    case (Cons y ys)
    with x have "rid = fst (last (y # ys))" "act = a" "n = m" by simp_all
    with m Cons show ?thesis by blast
  qed
qed

lemma winners_change:
  assumes "(rid, act, n) \<in> set (winners changes a ns)" and "distinct (map fst changes)"
  shows "\<exists>ch. map_of changes rid = Some ch \<and> change_key ch = (act, n)"
proof -
  from winners_mem [OF assms(1)] obtain y ys where a: "act = a"
    and s: "same_key changes (a, n) = y # ys" and r: "rid = fst (last (y # ys))" by blast
  obtain r' ch where l: "last (y # ys) = (r', ch)" by (cases "last (y # ys)")
  from last_same_key [OF s] l have "(r', ch) \<in> set changes" "change_key ch = (a, n)" by auto
  with assms(2) r l a show ?thesis by auto
qed

lemma winners_keys:
  "map snd (winners changes act ns) =
     map (Pair act) (filter (\<lambda>n. same_key changes (act, n) \<noteq> []) ns)"
  by (induction ns) (auto simp: winners_def split: list.splits)

lemma schedule_keys_distinct:
  assumes "delete_order = (\<lambda>x. x) \<or> delete_order = rev"
  shows "distinct (map snd (schedule delete_order tables changes))"
proof -
  define order where "order = topological_sort (build_dependency_graph tables)"
  have d: "distinct order" by (simp add: order_def topological_sort_names(1))
  then have dd: "distinct (delete_order order)" using assms by auto
  have w: "distinct (map snd (winners changes act ns))" if "distinct ns" for act ns
    unfolding winners_keys using that by (simp add: distinct_map inj_on_def)
  have s1: "set (map snd (winners changes ActUpdate order)) \<inter>
      set (map snd (winners changes ActCreate order) @
           map snd (winners changes ActDelete (delete_order order))) = {}"
    unfolding winners_keys by auto
  have s2: "set (map snd (winners changes ActCreate order)) \<inter>
      set (map snd (winners changes ActDelete (delete_order order))) = {}"
    unfolding winners_keys by auto
  have "distinct (map snd (winners changes ActUpdate order) @
      map snd (winners changes ActCreate order) @
      map snd (winners changes ActDelete (delete_order order)))"
    using w [OF d, of ActUpdate] w [OF d, of ActCreate] w [OF dd, of ActDelete] s1 s2
    by (simp only: distinct_append)
  then show ?thesis by (simp add: schedule_def Let_def order_def)
qed

lemma schedule_change:
  assumes "(rid, k) \<in> set (schedule delete_order tables changes)" and "distinct (map fst changes)"
  shows "\<exists>ch. map_of changes rid = Some ch \<and> change_key ch = k"
proof -
  obtain act n where k: "k = (act, n)" by (cases k)
  from assms(1) obtain a ns where "(rid, act, n) \<in> set (winners changes a ns)"
    by (auto simp: schedule_def Let_def k)
  from winners_change [OF this assms(2)] show ?thesis by (simp add: k)
qed

lemma schedule_resources_distinct:
  assumes "delete_order = (\<lambda>x. x) \<or> delete_order = rev" and "distinct (map fst changes)"
  shows "distinct (map fst (schedule delete_order tables changes))"
proof -
  define sched where "sched = schedule delete_order tables changes"
  define h where "h = (\<lambda>rid. change_key (the (map_of changes rid)))"
  have "snd x = h (fst x)" if "x \<in> set sched" for x
  proof -
    obtain rid k where x: "x = (rid, k)" by (cases x)
    from schedule_change [OF that [unfolded sched_def x] assms(2)] show ?thesis
      by (auto simp: x h_def)
  qed
  then have hh: "\<And>x. x \<in> set sched \<Longrightarrow> snd x = h (fst x)" .
  have "distinct (map snd sched)"
    unfolding sched_def by (rule schedule_keys_distinct [OF assms(1)])
  then have ds: "distinct sched" by (simp add: distinct_map)
  have "inj_on fst (set sched)"
  proof (rule inj_onI)
    fix x y assume x: "x \<in> set sched" and y: "y \<in> set sched" and e: "fst x = fst y"
    from hh [OF x] hh [OF y] e have "snd x = snd y" by simp
    with e show "x = y" by (rule prod_eqI)
  qed
  with ds show ?thesis unfolding sched_def by (simp add: distinct_map)
qed

lemma schedule_empty_plan: "schedule delete_order tables [] = []"
  by (simp add: schedule_def winners_def same_key_def Let_def)

lemma apply_run:
  assumes run: "apply_with b client delete_order db w tables state = Inr r"
    and p: "plan b tables state = Inr changes"
  shows "map event_id (events r) = schedule delete_order tables changes"
    and "mem_state r = replay b changes (events r) state"
    and "all_succeed client db \<Longrightarrow> \<forall>e \<in> set (events r). ev_ok e"
    and "written r = (if changes = [] then None else Some (mem_state r))"
proof -
  have "map event_id (events r) = schedule delete_order tables changes \<and>
    mem_state r = replay b changes (events r) state \<and>
    (all_succeed client db \<longrightarrow> (\<forall>e \<in> set (events r). ev_ok e)) \<and>
    written r = (if changes = [] then None else Some (mem_state r))"
  proof (cases "changes = []")
    case True
    with run p have "r = start w state" by (simp add: apply_with_def bind_err_def)
    then show ?thesis using True by (simp add: start_def schedule_empty_plan)
  next
    case False
    from apply_extends [OF run p False] obtain r3
      where e: "extends b changes (schedule delete_order tables changes) (all_succeed client db)
            (start w state) r3" and r: "r = save_state r3" by blast
    from e show ?thesis
      using False by (auto simp: extends_def r save_state_def start_def)
  qed
  then show "map event_id (events r) = schedule delete_order tables changes"
    and "mem_state r = replay b changes (events r) state"
    and "all_succeed client db \<Longrightarrow> \<forall>e \<in> set (events r). ev_ok e"
    and "written r = (if changes = [] then None else Some (mem_state r))"
    by blast+
qed

section \<open>Facts about the plan and its groups\<close>






section \<open>Runs on the concrete inputs\<close>

lemmas run_defs = start_def save_state_def drop_resource_def destroy_step_def delete_step_def
  update_step_def create_step_def supabase_client_def resolve_vars_def get_resource_def
  remove_resource_def add_resource_def always_ok_def always_fails_def users_fail_def
  dropped_def applied_def bind_err_def

lemmas dict_defs = to_dict_def from_dict_def supabase_def column_to_dict_def
  foreign_key_to_dict_def column_from_dict_def foreign_key_from_dict_def raw_table_empty_def

lemma blog_state_eval:
  "blog_state =
     [(''users_table'', \<lparr> rt_type = None, rt_name = Some ''users'',
         rt_conn = \<lparr> r_url = Some ''u'', r_key = Some ''k'' \<rparr>,
         rt_columns = Some [\<lparr> rc_name = Some ''id'', rc_type = Some ''INT'',
            rc_nullable = Some False, rc_default = None \<rparr>],
         rt_primary_key = Some (Many [''id'']), rt_foreign_keys = None \<rparr>),
      (''posts_table'', \<lparr> rt_type = None, rt_name = Some ''posts'',
         rt_conn = \<lparr> r_url = Some ''u'', r_key = Some ''k'' \<rparr>,
         rt_columns = Some [\<lparr> rc_name = Some ''id'', rc_type = Some ''INT'',
            rc_nullable = Some False, rc_default = None \<rparr>],
         rt_primary_key = Some (Many [''id'']),
         rt_foreign_keys = Some [\<lparr> rf_columns = Some (Many [''user_id'']),
            rf_reference_table = Some ''users'', rf_reference_columns = Some (Many [''id'']),
            rf_on_delete = Some ''CASCADE'', rf_on_update = Some ''NO ACTION'' \<rparr>] \<rparr>)]"
  by (simp add: blog_state_def dict_defs blog_defs)

lemma blog_names: "table_name_to_resource blog blog_state =
   [(''posts'', ''posts_table''), (''users'', ''users_table'')]"
  by (simp add: table_name_to_resource_def blog_state_eval) (simp add: blog_defs)

lemma renamed_state_eval:
  "renamed_state =
     [(''old_users'', snd (blog_state ! 0)), (''old_posts'', snd (blog_state ! 1))]"
  by (simp add: renamed_state_def blog_state_def)

lemma renamed_plan:
  "plan supabase blog renamed_state =
     Inr [(''posts_table'', Create posts), (''users_table'', Create users),
          (''old_users'', Delete ''users''), (''old_posts'', Delete ''posts'')]"
  by (simp add: plan_def plan_table_def plan_removed_def get_resource_def renamed_state_eval
      blog_state_eval blog_def raw_table_empty_def bind_err_def supabase_def)

lemma renamed_groups:
  "group_changes [(''posts_table'', Create posts), (''users_table'', Create users),
          (''old_users'', Delete ''users''), (''old_posts'', Delete ''posts'')] =
   ([(''posts'', ''posts_table'', posts), (''users'', ''users_table'', users)], [],
    [(''users'', ''old_users''), (''posts'', ''old_posts'')])"
  by (simp add: group_changes_def) (simp add: blog_defs)

lemma first_plan:
  "plan supabase blog [] = Inr [(''posts_table'', Create posts), (''users_table'', Create users)]"
  by (simp add: plan_def plan_table_def get_resource_def blog_def bind_err_def)

lemma first_groups:
  "group_changes [(''posts_table'', Create posts), (''users_table'', Create users)] =
   ([(''posts'', ''posts_table'', posts), (''users'', ''users_table'', users)], [], [])"
  by (simp add: group_changes_def) (simp add: blog_defs)

lemma first_apply_users_fail:
  "apply_with supabase (supabase_client example_environ) (\<lambda>table_order. table_order)
     users_fail () blog [] =
     Inr \<lparr> world = (), mem_state = [(''posts_table'', to_dict supabase posts)],
           events = [applied ''users_table'' ActCreate ''users'' False,
                     applied ''posts_table'' ActCreate ''posts'' True],
           written = Some [(''posts_table'', to_dict supabase posts)] \<rparr>"
  unfolding apply_with_def first_plan blog_order
  by (simp add: bind_err_def first_groups Let_def) (simp add: run_defs blog_defs)




lemma mysql_blog_order:
  "topological_sort (build_dependency_graph mysql_blog) = [''users'', ''posts'']"
  by (simp add: build_dependency_graph_def mysql_blog_def with_mysql_conn_def blog_defs
      add_dependencies_def add_dependency_def topological_sort_def visit.simps graph_get_def
      Let_def)

lemma mysql_blog_names: "table_name_to_resource mysql_blog mysql_blog_state =
   [(''posts'', ''posts_table''), (''users'', ''users_table'')]"
  by (simp add: table_name_to_resource_def mysql_blog_state_def mysql_blog_def to_dict_def
      with_mysql_conn_def blog_defs)

lemma aquaformmy_destroy_order:
  "map ev_table_name
     (case aquaformmy_destroy always_ok () mysql_blog mysql_blog_state None of
        Inr r \<Rightarrow> events r | Inl e \<Rightarrow> []) = [''posts'', ''users'']"
  unfolding aquaformmy_destroy_def destroy_with_def destroy_all_def mysql_blog_order
    mysql_blog_names Let_def
  by (simp add: mysql_blog_state_def to_dict_def mysql_def with_mysql_conn_def blog_defs
      run_defs raw_table_empty_def mysql_client_def get_resource_def)

lemma blog_destroy_all:
  "aquaform_destroy example_environ always_ok () blog blog_state None =
     Inr \<lparr> world = (), mem_state = [],
           events = [dropped ''users_table'' ''users'' True, dropped ''posts_table'' ''posts'' True],
           written = Some [] \<rparr>"
  unfolding aquaform_destroy_def destroy_with_def destroy_all_def blog_order blog_names Let_def
  by (simp add: blog_state_eval run_defs raw_table_empty_def supabase_def)

lemma renamed_apply_deletes:
  "map ev_table_name (filter (\<lambda>e. ev_action e = ActDelete)
     (case aquaform_apply example_environ always_ok () blog renamed_state of
        Inr r \<Rightarrow> events r | Inl e \<Rightarrow> [])) = [''users'', ''posts'']"
  unfolding aquaform_apply_def apply_with_def renamed_plan blog_order
  by (simp add: bind_err_def renamed_groups Let_def)
     (simp add: run_defs renamed_state_eval blog_state_eval supabase_def)






section \<open>Facts about the state after a run\<close>










section \<open>\<^verbatim>\<open>apply\<close> returns\<close>

text \<open>
  The only exceptions \<^verbatim>\<open>apply\<close> can raise come from reading the state. On a state of
  table descriptors none is raised, whatever the client and the database answer: the
  entry of a resource to delete is still the recorded one when the third loop reaches it.
\<close>

lemma from_dict_conn:
  assumes "from_dict b rid cur = Inr t"
  shows "\<exists>conn. conn_from_dict b (rt_conn cur) = Inr conn"
  using assms unfolding from_dict_def bind_err_Inr_iff by blast

lemma delete_actions_change:
  assumes grp: "group_changes changes = (ca, ua, da)" and d: "distinct (map fst changes)"
    and m: "map_of da n = Some rid"
  shows "map_of changes rid = Some (Delete n)"
proof (cases "same_key changes (ActDelete, n)")
  case Nil
  with m show ?thesis
    using group_fold [OF grp [unfolded group_changes_def], of n] by simp
next
  case (Cons y ys)
  obtain rid' ch where l: "last (y # ys) = (rid', ch)" by (cases "last (y # ys)")
  from last_same_key [OF Cons] l have mem: "(rid', ch) \<in> set changes"
    and k: "change_key ch = (ActDelete, n)" by auto
  from k have ch: "ch = Delete n" by (cases ch) auto
  have "map_of da n = Some rid'"
    using group_fold [OF grp [unfolded group_changes_def], of n] Cons l ch by simp
  with m have "rid' = rid" by simp
  with mem d ch show ?thesis by simp
qed

lemma drop_resource_returns:
  assumes "conn_from_dict b (rt_conn cur) = Inr conn"
  shows "\<exists>r'. drop_resource b client db rid n cur r = Inr r' \<and>
           (\<forall>rid'. rid' \<noteq> rid \<longrightarrow> map_of (mem_state r') rid' = map_of (mem_state r) rid')"
proof -
  obtain co w1 where c: "client (world r) conn = (co, w1)" by (cases "client (world r) conn")
  show ?thesis
  proof (cases co)
    case None
    with c assms show ?thesis by (simp add: drop_resource_def bind_err_def)
  next
    case (Some cn)
    obtain ok w2 where db: "db w1 (DropTable cn n) = (ok, w2)" by (cases "db w1 (DropTable cn n)")
    with c Some assms show ?thesis
      by (simp add: drop_resource_def bind_err_def remove_resource_def delete_conv')
  qed
qed

lemma delete_loop_returns:
  assumes grp: "group_changes changes = (ca, ua, da)" and d: "distinct (map fst changes)"
  shows "distinct ns \<Longrightarrow>
    (\<And>n rid. n \<in> set ns \<Longrightarrow> map_of da n = Some rid \<Longrightarrow>
        \<exists>cur conn. map_of (mem_state r) rid = Some cur \<and>
                   conn_from_dict b (rt_conn cur) = Inr conn) \<Longrightarrow>
    \<exists>r'. for_each (delete_step b client db da) ns r = Inr r'"
proof (induction ns arbitrary: r)
  case Nil
  show ?case by simp
next
  case (Cons n ns)
  have "\<exists>r1. delete_step b client db da n r = Inr r1 \<and>
          (\<forall>m rid. m \<in> set ns \<longrightarrow> map_of da m = Some rid \<longrightarrow>
              map_of (mem_state r1) rid = map_of (mem_state r) rid)"
  proof (cases "map_of da n")
    case None
    then show ?thesis by (simp add: delete_step_def)
  next
    case (Some rid)
    from Cons.prems(2) [OF _ Some] obtain cur conn
      where cur: "map_of (mem_state r) rid = Some cur"
        and conn: "conn_from_dict b (rt_conn cur) = Inr conn" by auto
    from drop_resource_returns [OF conn, of client db rid n r] obtain r1
      where r1: "drop_resource b client db rid n cur r = Inr r1"
        and fr: "\<And>rid'. rid' \<noteq> rid \<Longrightarrow> map_of (mem_state r1) rid' = map_of (mem_state r) rid'"
      by blast
    have st: "delete_step b client db da n r = Inr r1"
      by (simp add: delete_step_def Some get_resource_def cur r1)
    have "map_of (mem_state r1) rid' = map_of (mem_state r) rid'"
      if m: "m \<in> set ns" and s: "map_of da m = Some rid'" for m rid'
    proof -
      from Cons.prems(1) m have ne: "m \<noteq> n" by auto
      from delete_actions_change [OF grp d Some] delete_actions_change [OF grp d s] ne
      have "rid' \<noteq> rid" by auto
      then show ?thesis by (rule fr)
    qed
    with st show ?thesis by blast
  qed
  then obtain r1 where st: "delete_step b client db da n r = Inr r1"
    and fr: "\<And>m rid. m \<in> set ns \<Longrightarrow> map_of da m = Some rid \<Longrightarrow>
              map_of (mem_state r1) rid = map_of (mem_state r) rid" by blast
  have "\<exists>r'. for_each (delete_step b client db da) ns r1 = Inr r'"
  proof (rule Cons.IH)
    from Cons.prems(1) show "distinct ns" by simp
  next
    fix m rid assume m: "m \<in> set ns" and s: "map_of da m = Some rid"
    from Cons.prems(2) [of m rid] m s obtain cur conn
      where "map_of (mem_state r) rid = Some cur" "conn_from_dict b (rt_conn cur) = Inr conn"
      by auto
    with fr [OF m s] show "\<exists>cur conn. map_of (mem_state r1) rid = Some cur \<and>
                   conn_from_dict b (rt_conn cur) = Inr conn" by simp
  qed
  with st show ?case by (simp add: bind_err_def)
qed

lemma apply_returns:
  assumes t: "distinct (map fst tables)" and s: "state_ok b state"
    and o: "delete_order = (\<lambda>table_order. table_order) \<or> delete_order = rev"
  shows "\<exists>r. apply_with b client delete_order db w tables state = Inr r"
proof -
  from plan_expected [OF t s] obtain changes where p: "plan b tables state = Inr changes"
    and d: "distinct (map fst changes)"
    and ex: "\<And>rid. map_of changes rid = expected_change b tables state rid" by blast
  show ?thesis
  proof (cases "changes = []")
    case True
    with p show ?thesis by (simp add: apply_with_def bind_err_def)
  next
    case False
    obtain ca ua da where grp: "group_changes changes = (ca, ua, da)"
      by (cases "group_changes changes")
    define order where "order = topological_sort (build_dependency_graph tables)"
    define r1 where "r1 = fold (update_step b client db ua) order (start w state)"
    define r2 where "r2 = fold (create_step b client db ca) order r1"
    have e1: "extends b changes (winners changes ActUpdate order) (all_succeed client db)
        (start w state) r1"
      unfolding r1_def winners_concat [of changes ActUpdate order]
      by (rule fold_extends) (rule update_step_extends [OF grp d])
    have e2: "extends b changes (winners changes ActCreate order) (all_succeed client db) r1 r2"
      unfolding r2_def winners_concat [of changes ActCreate order]
      by (rule fold_extends) (rule create_step_extends [OF grp d])
    from extends_trans [OF e1 e2] obtain es
      where ids: "map event_id es = winners changes ActUpdate order @ winners changes ActCreate order"
        and ms: "mem_state r2 = replay b changes es state"
      unfolding extends_def by (auto simp: start_def)
    have dis: "distinct (delete_order order)"
      using o topological_sort_names(1) [of tables] by (auto simp: order_def)
    have inv: "\<exists>cur conn. map_of (mem_state r2) rid = Some cur \<and>
                   conn_from_dict b (rt_conn cur) = Inr conn"
      if m: "map_of da n = Some rid" for n rid
    proof -
      note c = delete_actions_change [OF grp d m]
      with ex [of rid] obtain cur old where cur: "map_of state rid = Some cur"
        and fd: "from_dict b rid cur = Inr old"
        by (auto simp: expected_change_def split: option.splits sum.splits if_splits)
      have "\<forall>e \<in> set es. ev_resource_id e = rid \<longrightarrow> \<not> ev_ok e"
      proof (intro ballI impI)
        fix e assume e: "e \<in> set es" and r: "ev_resource_id e = rid"
        from e have "event_id e \<in> set (map event_id es)" by simp
        with r have "(rid, ev_action e, ev_table_name e) \<in> set (winners changes ActUpdate order) \<or>
            (rid, ev_action e, ev_table_name e) \<in> set (winners changes ActCreate order)"
          by (simp add: ids event_id_def)
        then have False
        proof
          assume a: "(rid, ev_action e, ev_table_name e) \<in> set (winners changes ActUpdate order)"
          from winners_mem [OF a] winners_change [OF a d] c show False by auto
        next
          assume a: "(rid, ev_action e, ev_table_name e) \<in> set (winners changes ActCreate order)"
          from winners_mem [OF a] winners_change [OF a d] c show False by auto
        qed
        then show "\<not> ev_ok e" ..
      qed
      from replay_frame [OF this, of b changes state]
      have "map_of (mem_state r2) rid = Some cur"
        by (simp add: ms cur)
      with from_dict_conn [OF fd] show ?thesis by blast
    qed
    from delete_loop_returns [OF grp d dis, of r2 b client db] inv obtain r3
      where r3: "for_each (delete_step b client db da) (delete_order order) r2 = Inr r3"
      by blast
    show ?thesis
      using p False grp r3
      by (simp add: apply_with_def bind_err_def Let_def order_def r1_def r2_def)
  qed
qed

section \<open>Claims about the diff\<close>

text \<open>
  Claim C9, as the code has it. For tables whose column names are pairwise distinct and
  whose foreign keys have pairwise distinct column tuples, \<^verbatim>\<open>_compare_tables\<close> lists
  \<^verbatim>\<open>add_columns\<close> and the new halves of \<^verbatim>\<open>modify_columns\<close> in their order in
  \<^verbatim>\<open>new\<close>, and \<^verbatim>\<open>remove_columns\<close> in their order in \<^verbatim>\<open>old\<close>.
  \<^verbatim>\<open>add_foreign_keys\<close> is two runs: the keys whose column tuple is only in \<^verbatim>\<open>new\<close>,
  then the new versions of the changed keys, each run in the order of \<^verbatim>\<open>new\<close>.
  \<^verbatim>\<open>remove_foreign_keys\<close> is two runs: the old versions of the changed keys (in the
  order of their new versions in \<^verbatim>\<open>new\<close>), then the keys whose column tuple is only in
  \<^verbatim>\<open>old\<close>, in the order of \<^verbatim>\<open>old\<close>. The diff is a function of the two tables, so
  equal inputs give equal deltas.
\<close>

theorem compare_tables_order:
  fixes old new :: "'c Table"
  assumes "distinct (map col_name (t_columns old))" "distinct (map col_name (t_columns new))"
    "distinct (map fk_columns (or_empty (t_foreign_keys old)))"
    "distinct (map fk_columns (or_empty (t_foreign_keys new)))"
  shows "subseq (add_columns (compare_tables old new)) (t_columns new) \<and>
    subseq (map snd (modify_columns (compare_tables old new))) (t_columns new) \<and>
    subseq (remove_columns (compare_tables old new)) (t_columns old) \<and>
    (\<exists>added changed removed.
        add_foreign_keys (compare_tables old new) = added @ map snd changed \<and>
        remove_foreign_keys (compare_tables old new) = map fst changed @ removed \<and>
        subseq added (or_empty (t_foreign_keys new)) \<and>
        subseq (map snd changed) (or_empty (t_foreign_keys new)) \<and>
        subseq removed (or_empty (t_foreign_keys old)) \<and>
        set added = {n \<in> set (or_empty (t_foreign_keys new)).
                       fk_columns n \<notin> fk_columns ` set (or_empty (t_foreign_keys old))} \<and>
        set changed = {(p, n). p \<in> set (or_empty (t_foreign_keys old)) \<and>
                       n \<in> set (or_empty (t_foreign_keys new)) \<and>
                       fk_columns p = fk_columns n \<and> p \<noteq> n} \<and>
        set removed = {p \<in> set (or_empty (t_foreign_keys old)).
                       fk_columns p \<notin> fk_columns ` set (or_empty (t_foreign_keys new))})"
proof -
  define d where "d = compare_tables old new"
  define ofk where "ofk = or_empty (t_foreign_keys old)"
  define nfk where "nfk = or_empty (t_foreign_keys new)"
  have c1: "subseq (add_columns d) (t_columns new)"
    using assms(1,2) by (simp add: d_def compare_tables_def Let_def dict_of_distinct only_in_distinct)
  have c2: "subseq (map snd (modify_columns d)) (t_columns new)"
    using assms(1,2) by (simp add: d_def compare_tables_def Let_def dict_of_distinct modified_pairs_snd)
  have c3: "subseq (remove_columns d) (t_columns old)"
    using assms(1,2) by (simp add: d_def compare_tables_def Let_def dict_of_distinct only_in_distinct)
  let ?om = "map (\<lambda>x. (fk_columns x, x)) ofk"
  let ?nm = "map (\<lambda>x. (fk_columns x, x)) nfk"
  have dist: "distinct (map fk_columns ofk)" "distinct (map fk_columns nfk)"
    using assms(3,4) by (simp_all add: ofk_def nfk_def)
  have add_eq: "add_foreign_keys d = only_in ?nm ?om @ map snd (modified_pairs foreign_key_equals ?om ?nm)"
  proof (cases "truthy_list (t_foreign_keys old) \<or> truthy_list (t_foreign_keys new)")
    case True
    then show ?thesis using assms(3,4)
      by (simp add: d_def compare_tables_def Let_def dict_of_distinct ofk_def nfk_def)
  next
    case False
    then have "ofk = []" "nfk = []"
      by (cases "t_foreign_keys old"; cases "t_foreign_keys new"; simp add: ofk_def nfk_def)+
    then show ?thesis using False
      by (simp add: d_def compare_tables_def Let_def only_in_def modified_pairs_def)
  qed
  have rem_eq: "remove_foreign_keys d = map fst (modified_pairs foreign_key_equals ?om ?nm) @ only_in ?om ?nm"
  proof (cases "truthy_list (t_foreign_keys old) \<or> truthy_list (t_foreign_keys new)")
    case True
    then show ?thesis using assms(3,4)
      by (simp add: d_def compare_tables_def Let_def dict_of_distinct ofk_def nfk_def)
  next
    case False
    then have "ofk = []" "nfk = []"
      by (cases "t_foreign_keys old"; cases "t_foreign_keys new"; simp add: ofk_def nfk_def)+
    then show ?thesis using False
      by (simp add: d_def compare_tables_def Let_def only_in_def modified_pairs_def)
  qed
  have s1: "subseq (only_in ?nm ?om) nfk" by (simp add: only_in_distinct)
  have s2: "subseq (map snd (modified_pairs foreign_key_equals ?om ?nm)) nfk"
    by (simp add: modified_pairs_snd)
  have s3: "subseq (only_in ?om ?nm) ofk" by (simp add: only_in_distinct)
  have e1: "set (only_in ?nm ?om) = {n \<in> set nfk. fk_columns n \<notin> fk_columns ` set ofk}"
    by (auto simp: only_in_distinct map_of_keyed_None)
  have e3: "set (only_in ?om ?nm) = {p \<in> set ofk. fk_columns p \<notin> fk_columns ` set nfk}"
    by (auto simp: only_in_distinct map_of_keyed_None)
  have e2: "set (modified_pairs foreign_key_equals ?om ?nm) =
      {(p, n). p \<in> set ofk \<and> n \<in> set nfk \<and> fk_columns p = fk_columns n \<and> p \<noteq> n}"
    using dist(1) by (auto simp: set_modified_pairs map_of_keyed_Some foreign_key_equals_iff)
  have fk: "\<exists>added changed removed.
        add_foreign_keys d = added @ map snd changed \<and>
        remove_foreign_keys d = map fst changed @ removed \<and>
        subseq added nfk \<and> subseq (map snd changed) nfk \<and> subseq removed ofk \<and>
        set added = {n \<in> set nfk. fk_columns n \<notin> fk_columns ` set ofk} \<and>
        set changed = {(p, n). p \<in> set ofk \<and> n \<in> set nfk \<and> fk_columns p = fk_columns n \<and> p \<noteq> n} \<and>
        set removed = {p \<in> set ofk. fk_columns p \<notin> fk_columns ` set nfk}"
    using add_eq rem_eq s1 s2 s3 e1 e2 e3 by blast
  show ?thesis using c1 c2 c3 fk unfolding d_def ofk_def nfk_def by blast
qed


theorem compare_tables_order_witness:
  "distinct (map col_name (t_columns diff_old)) \<and>
   distinct (map col_name (t_columns diff_new)) \<and>
   distinct (map fk_columns (or_empty (t_foreign_keys diff_old))) \<and>
   distinct (map fk_columns (or_empty (t_foreign_keys diff_new))) \<and>
   subseq (add_columns (compare_tables diff_old diff_new)) (t_columns diff_new) \<and>
   subseq (remove_columns (compare_tables diff_old diff_new)) (t_columns diff_old) \<and>
   add_foreign_keys (compare_tables diff_old diff_new) =
     [example_fk ''b'' ''y'' ''NO ACTION''] @ [example_fk ''a'' ''x'' ''CASCADE''] \<and>
   remove_foreign_keys (compare_tables diff_old diff_new) =
     [example_fk ''a'' ''x'' ''NO ACTION''] @ [example_fk ''c'' ''z'' ''NO ACTION'']"
proof -
  have d: "distinct (map col_name (t_columns diff_old))"
    "distinct (map col_name (t_columns diff_new))"
    "distinct (map fk_columns (or_empty (t_foreign_keys diff_old)))"
    "distinct (map fk_columns (or_empty (t_foreign_keys diff_new)))"
    by (simp_all add: example_defs)
  have a: "add_foreign_keys (compare_tables diff_old diff_new) =
     [example_fk ''b'' ''y'' ''NO ACTION''] @ [example_fk ''a'' ''x'' ''CASCADE'']"
    by (simp add: compare_defs example_defs)
  have r: "remove_foreign_keys (compare_tables diff_old diff_new) =
     [example_fk ''a'' ''x'' ''NO ACTION''] @ [example_fk ''c'' ''z'' ''NO ACTION'']"
    by (simp add: compare_defs example_defs)
  from compare_tables_order [OF d] d a r show ?thesis by blast
qed

text \<open>
  Claim C9 as stated fails: on \<open>diff_old\<close> and \<open>diff_new\<close> the changed key on \<open>a\<close> comes
  first in \<^verbatim>\<open>new\<close> but last in \<^verbatim>\<open>add_foreign_keys\<close>, and its old version comes last
  in \<^verbatim>\<open>old\<close> but first in \<^verbatim>\<open>remove_foreign_keys\<close>.
\<close>

theorem compare_tables_order_counterexample:
  "\<not> subseq (add_foreign_keys (compare_tables diff_old diff_new))
       (or_empty (t_foreign_keys diff_new)) \<and>
   \<not> subseq (remove_foreign_keys (compare_tables diff_old diff_new))
       (or_empty (t_foreign_keys diff_old))"
  by (simp add: compare_defs example_defs)

section \<open>Claims about the variable resolver\<close>

text \<open>
  Claim C8. \<^verbatim>\<open>_resolve_vars\<close> treats its two fields alike. A field whose whole value
  is \<open>${IDENT}\<close> becomes the value the environment gives \<open>IDENT\<close>, and stays the
  literal \<open>${IDENT}\<close> when the environment does not define it (no error: the result is
  always a pair of strings). A field that is not of that form, a partial interpolation
  included, is returned as it is. The function reads its arguments and builds a new
  pair; the descriptor they come from is not an argument and is not changed.
\<close>

theorem resolve_vars_spec:
  "fst (resolve_vars environ (''${'' @ ident @ ''}'') k) =
     (case environ ident of Some v \<Rightarrow> v | None \<Rightarrow> ''${'' @ ident @ ''}'') \<and>
   snd (resolve_vars environ u (''${'' @ ident @ ''}'')) =
     (case environ ident of Some v \<Rightarrow> v | None \<Rightarrow> ''${'' @ ident @ ''}'') \<and>
   ((\<nexists>i. u = ''${'' @ i @ ''}'') \<longrightarrow> fst (resolve_vars environ u k) = u) \<and>
   ((\<nexists>i. k = ''${'' @ i @ ''}'') \<longrightarrow> snd (resolve_vars environ u k) = k)"
proof -
  have f: "prefix ''${'' (''${'' @ ident @ ''}'') \<and> suffix ''}'' (''${'' @ ident @ ''}'')"
    using var_form_iff by blast
  show ?thesis
    apply (intro conjI impI)
    subgoal using f by (simp add: resolve_vars_def Let_def butlast_append split: option.splits)
    subgoal using f by (simp add: resolve_vars_def Let_def butlast_append split: option.splits)
    subgoal using var_form_iff [of u] by (auto simp: resolve_vars_def Let_def)
    subgoal using var_form_iff [of k] by (auto simp: resolve_vars_def Let_def)
    done
qed

theorem resolve_vars_spec_witness:
  "resolve_vars example_environ ''${X}'' ''${Y}'' = (''v'', ''${Y}'') \<and>
   (\<nexists>i. ''a-${X}-b'' = ''${'' @ i @ ''}'') \<and>
   (\<nexists>i. ''${X'' = ''${'' @ i @ ''}'') \<and>
   resolve_vars example_environ ''a-${X}-b'' ''${X'' = (''a-${X}-b'', ''${X'')"
proof -
  have n1: "\<nexists>i. ''a-${X}-b'' = ''${'' @ i @ ''}''" by simp
  have n2: "\<nexists>i. ''${X'' = ''${'' @ i @ ''}''" by (simp add: append_eq_Cons_conv)
  have a: "fst (resolve_vars example_environ ''${X}'' ''${Y}'') = ''v''"
    using resolve_vars_spec [of example_environ "''X''" "''${Y}''"] by (simp add: example_environ_def)
  have b: "snd (resolve_vars example_environ ''${X}'' ''${Y}'') = ''${Y}''"
    using resolve_vars_spec [of example_environ "''Y''" _ "''${X}''"] by (simp add: example_environ_def)
  have c: "fst (resolve_vars example_environ ''a-${X}-b'' ''${X'') = ''a-${X}-b''"
    using resolve_vars_spec [of example_environ _  "''${X''" "''a-${X}-b''"] n1 by blast
  have d: "snd (resolve_vars example_environ ''a-${X}-b'' ''${X'') = ''${X''"
    using resolve_vars_spec [of example_environ _  "''${X''" "''a-${X}-b''"] n2 by blast
  from a b c d n1 n2 show ?thesis by (simp add: prod_eq_iff)
qed

section \<open>Claims about the loader\<close>




section \<open>Claims about the topological sort\<close>

text \<open>
  Claim C7. The graph that \<^verbatim>\<open>_build_dependency_graph\<close> builds has the desired table
  names as its nodes and the relation \<open>fk_edges\<close> as its edges (lemma
  \<open>build_dependency_graph_spec\<close>). When that relation is acyclic,
  \<^verbatim>\<open>_topological_sort\<close> of the graph returns the desired table names, each once, and
  every referenced table comes before every table that references it.
\<close>

theorem topological_sort_dependencies_first:
  assumes "acyclic (fk_edges tables)"
  shows "distinct (topological_sort (build_dependency_graph tables)) \<and>
         set (topological_sort (build_dependency_graph tables)) = t_name ` snd ` set tables \<and>
         (\<forall>(a, b) \<in> fk_edges tables.
            precedes b a (topological_sort (build_dependency_graph tables)))"
proof -
  define g where "g = build_dependency_graph tables"
  have ac: "acyclic (edges g)"
    using assms by (simp add: g_def build_dependency_graph_spec(2))
  note ts = topological_sort_graph [OF ac]
  have keys: "fst ` set g = t_name ` snd ` set tables"
    by (simp add: g_def build_dependency_graph_spec(1))
  have closed: "\<Union> (set ` snd ` set g) \<subseteq> t_name ` snd ` set tables"
    unfolding g_def by (rule build_dependency_graph_closed)
  have d: "distinct (topological_sort g)" using ts(1) by (simp add: ordered_def)
  have u: "fst ` set g \<union> \<Union> (set ` snd ` set g) \<subseteq> t_name ` snd ` set tables"
    using keys closed by simp
  have s: "set (topological_sort g) = t_name ` snd ` set tables"
  proof (rule equalityI)
    show "set (topological_sort g) \<subseteq> t_name ` snd ` set tables"
      using ts(3) u by (rule subset_trans)
    show "t_name ` snd ` set tables \<subseteq> set (topological_sort g)"
      using ts(2) keys by simp
  qed
  have p: "precedes b a (topological_sort g)" if "(a, b) \<in> fk_edges tables" for a b
  proof -
    from that have e: "(a, b) \<in> edges g" by (simp add: g_def build_dependency_graph_spec(2))
    then have b: "b \<in> set (graph_get g a)" by (simp add: edges_def)
    from that have "a \<in> t_name ` snd ` set tables" by (force simp: fk_edges_def)
    with s have "a \<in> set (topological_sort g)" by simp
    with ts(1) b show ?thesis by (intro ordered_precedes)
  qed
  from d s p show ?thesis unfolding g_def by blast
qed

theorem topological_sort_dependencies_first_witness:
  "acyclic (fk_edges blog) \<and>
   (''posts'', ''users'') \<in> fk_edges blog \<and>
   topological_sort (build_dependency_graph blog) = [''users'', ''posts''] \<and>
   distinct (topological_sort (build_dependency_graph blog)) \<and>
   precedes ''users'' ''posts'' (topological_sort (build_dependency_graph blog))"
proof -
  have ac: "acyclic (fk_edges blog)"
    by (rule acyclicI_order [where f = "\<lambda>n. if n = ''posts'' then 1 else (0::nat)"])
      (simp add: blog_edges)
  have e: "(''posts'', ''users'') \<in> fk_edges blog" by (simp add: blog_edges)
  from topological_sort_dependencies_first [OF ac] e blog_order ac show ?thesis by blast
qed

section \<open>Claims about the planner\<close>

text \<open>
  Claim C6. For a desired map and a state whose entries are table descriptors, \<^verbatim>\<open>plan\<close>
  returns a dict that holds, for every resource id, exactly the change
  \<open>expected_change\<close> names: \<^verbatim>\<open>create\<close> for a desired table with no recorded entry,
  \<^verbatim>\<open>update\<close> with the computed delta for a desired table whose recorded descriptor
  diffs non-empty against it, nothing when the delta is empty, and \<^verbatim>\<open>delete\<close> with
  the recorded name for a recorded resource that is not desired.
\<close>

theorem plan_exact:
  assumes "distinct (map fst tables)" and "state_ok b state"
  shows "\<exists>changes. plan b tables state = Inr changes \<and> distinct (map fst changes) \<and>
           (\<forall>resource_id. map_of changes resource_id = expected_change b tables state resource_id)"
  using assms by (rule plan_expected)


theorem plan_exact_witness:
  "distinct (map fst blog) \<and> state_ok supabase mixed_state \<and>
   plan supabase blog mixed_state =
     Inr [(''posts_table'', Create posts), (''users_table'', Update users pk_changed),
          (''old_posts'', Delete ''posts'')] \<and>
   expected_change supabase blog mixed_state ''posts_table'' = Some (Create posts) \<and>
   expected_change supabase blog mixed_state ''users_table'' = Some (Update users pk_changed) \<and>
   expected_change supabase blog mixed_state ''old_posts'' = Some (Delete ''posts'') \<and>
   expected_change supabase blog mixed_state ''other'' = None"
proof -
  have d: "distinct (map fst blog)" by (simp add: blog_def)
  have ok: "state_ok supabase mixed_state"
    by (simp add: state_ok_def parses_def mixed_state_def to_dict_def from_dict_def supabase_def
        blog_defs column_to_dict_def foreign_key_to_dict_def column_from_dict_def
        foreign_key_from_dict_def bind_err_def)
  have p: "plan supabase blog mixed_state =
     Inr [(''posts_table'', Create posts), (''users_table'', Update users pk_changed),
          (''old_posts'', Delete ''posts'')]"
    by (simp add: plan_def plan_table_def plan_removed_def get_resource_def mixed_state_def
        to_dict_def from_dict_def supabase_def blog_defs column_to_dict_def
        foreign_key_to_dict_def column_from_dict_def foreign_key_from_dict_def bind_err_def
        raw_table_empty_def compare_defs changes_empty_def pk_changed_def)
  from plan_exact [OF d ok] p
  have e: "map_of [(''posts_table'', Create posts), (''users_table'', Update users pk_changed),
          (''old_posts'', Delete ''posts'')] rid = expected_change supabase blog mixed_state rid"
    for rid by auto
  from e [of "''posts_table''"] e [of "''users_table''"] e [of "''old_posts''"] e [of "''other''"]
    d ok p
  show ?thesis by simp
qed

section \<open>Claims about \<^verbatim>\<open>apply\<close>\<close>

text \<open>
  Claim C5, for both files (\<open>delete_order\<close> is the identity in \<^verbatim>\<open>aquaform.py\<close> and
  \<^verbatim>\<open>reversed\<close> in \<^verbatim>\<open>aquaformmy.py\<close>). On a state of table descriptors \<^verbatim>\<open>apply\<close>
  returns, whatever the client and the database answer. The resources worked on, with
  their phases and table names and in their order, are the \<open>schedule\<close> of the plan,
  which does not depend on those answers: a failure never stops the resources after it
  from being processed. Every resource is worked on at most once, and the state entry
  of a resource whose operation failed is the one the run started with.
\<close>

theorem apply_failure_isolation:
  assumes "distinct (map fst tables)" and "state_ok b state"
    and "delete_order = (\<lambda>table_order. table_order) \<or> delete_order = rev"
  shows "\<exists>r changes. apply_with b client delete_order db w tables state = Inr r \<and>
           plan b tables state = Inr changes \<and>
           map event_id (events r) = schedule delete_order tables changes \<and>
           distinct (map ev_resource_id (events r)) \<and>
           (\<forall>e \<in> set (events r). \<not> ev_ok e \<longrightarrow>
              map_of (mem_state r) (ev_resource_id e) = map_of state (ev_resource_id e))"
proof -
  from apply_returns [OF assms, of client db w] obtain r
    where run: "apply_with b client delete_order db w tables state = Inr r" by blast
  then obtain changes where p: "plan b tables state = Inr changes"
    by (auto simp: apply_with_def bind_err_Inr_iff)
  note a = apply_run [OF run p]
  note d = plan_keys_distinct [OF p]
  have "map ev_resource_id (events r) = map fst (map event_id (events r))"
    by (simp add: event_id_def comp_def)
  then have dr: "distinct (map ev_resource_id (events r))"
    using schedule_resources_distinct [OF assms(3) d, of tables] a(1) by simp
  have "map_of (mem_state r) (ev_resource_id e) = map_of state (ev_resource_id e)"
    if e: "e \<in> set (events r)" and f: "\<not> ev_ok e" for e
  proof -
    have "\<forall>e' \<in> set (events r). ev_resource_id e' = ev_resource_id e \<longrightarrow> \<not> ev_ok e'"
    proof (intro ballI impI)
      fix e' assume "e' \<in> set (events r)" and "ev_resource_id e' = ev_resource_id e"
      with dr e have "e' = e" by (auto simp: distinct_map inj_on_def)
      with f show "\<not> ev_ok e'" by simp
    qed
    from replay_frame [OF this] show ?thesis by (simp add: a(2))
  qed
  with run p a(1) dr show ?thesis by blast
qed

theorem apply_failure_isolation_witness:
  "aquaform_apply example_environ users_fail () blog [] =
     Inr \<lparr> world = (), mem_state = [(''posts_table'', to_dict supabase posts)],
           events = [applied ''users_table'' ActCreate ''users'' False,
                     applied ''posts_table'' ActCreate ''posts'' True],
           written = Some [(''posts_table'', to_dict supabase posts)] \<rparr> \<and>
   schedule (\<lambda>table_order. table_order) blog
       [(''posts_table'', Create posts), (''users_table'', Create users)] =
     [(''users_table'', ActCreate, ''users''), (''posts_table'', ActCreate, ''posts'')] \<and>
   map_of [(''posts_table'', to_dict supabase posts)] ''users_table'' = map_of [] ''users_table''"
proof -
  have d1: "distinct (map fst blog)" by (simp add: blog_def)
  have s: "state_ok supabase ([] :: raw_supabase_conn state)" by (simp add: state_ok_def)
  have o: "(\<lambda>table_order :: string list. table_order) = (\<lambda>table_order. table_order) \<or>
           (\<lambda>table_order :: string list. table_order) = rev" by simp
  from apply_failure_isolation [OF d1 s o, of "supabase_client example_environ" users_fail "()"]
  have "schedule (\<lambda>table_order. table_order) blog
       [(''posts_table'', Create posts), (''users_table'', Create users)] =
     map event_id [applied ''users_table'' ActCreate ''users'' False,
                     applied ''posts_table'' ActCreate ''posts'' True]"
    unfolding first_apply_users_fail first_plan by auto
  then show ?thesis using first_apply_users_fail
    by (simp add: aquaform_apply_def event_id_def applied_def)
qed



section \<open>Claims about \<^verbatim>\<open>destroy\<close> and the order of drops\<close>

text \<open>
  Claim C1 against \<^verbatim>\<open>aquaform.py\<close>. \<open>posts\<close> references \<open>users\<close>, so the claim wants
  \<open>posts\<close> dropped before \<open>users\<close>. \<^verbatim>\<open>destroy()\<close> of \<^verbatim>\<open>aquaform.py\<close> walks the
  topological order as it is and drops \<open>users\<close> first; so does the delete phase of its
  \<^verbatim>\<open>apply\<close>. The comments of both loops say that the tables depending on others are
  to be removed first, and \<^verbatim>\<open>aquaformmy.py\<close> reverses the order in both places (lemma
  \<open>aquaformmy_destroy_order\<close>).
\<close>

theorem aquaform_drops_referenced_table_first:
  "(''posts'', ''users'') \<in> fk_edges blog \<and>
   aquaform_destroy example_environ always_ok () blog blog_state None =
     Inr \<lparr> world = (), mem_state = [],
           events = [dropped ''users_table'' ''users'' True, dropped ''posts_table'' ''posts'' True],
           written = Some [] \<rparr> \<and>
   map ev_table_name (filter (\<lambda>e. ev_action e = ActDelete)
     (case aquaform_apply example_environ always_ok () blog renamed_state of
        Inr r \<Rightarrow> events r | Inl e \<Rightarrow> [])) = [''users'', ''posts''] \<and>
   \<not> precedes ''posts'' ''users'' [''users'', ''posts'']"
  using blog_destroy_all renamed_apply_deletes by (simp add: blog_edges precedes_def)









end
